theory Spec2Isabelle
  imports Complex_Main
begin

section \<open>Python values and exceptions\<close>

text \<open>
  The constructor of \<open>Color\<close> takes \<open>*args, **kwargs\<close>: any Python values. The values
  that matter here are \<open>None\<close>, numbers and strings. A Python float is modelled as a
  real: the code performs no arithmetic on the channels, it only tests one for truth.
\<close>

datatype pyval = PyNone | PyInt int | PyFloat real | PyStr string

text \<open>Python's truth value of an object, as \<open>if x:\<close> tests it.\<close>

fun truthy :: "pyval \<Rightarrow> bool" where
  "truthy PyNone = False"
| "truthy (PyInt n) = (n \<noteq> 0)"
| "truthy (PyFloat x) = (x \<noteq> 0)"
| "truthy (PyStr s) = (s \<noteq> [])"

text \<open>
  The kernel binding converts a Python number to a channel value and rejects anything
  else (a \<open>TypeError\<close> of the binding).
\<close>

fun as_float :: "pyval \<Rightarrow> real option" where
  "as_float (PyFloat x) = Some x"
| "as_float (PyInt n) = Some (of_int n)"
| "as_float PyNone = None"
| "as_float (PyStr s) = None"

text \<open>
  Both errors of the constructor are Python \<open>ValueError\<close>s; they differ in the message:
  \<open>Unknown color name: ...\<close> (the specification's UnknownColorError) and
  \<open>Unsupported arguments: ...\<close> (the specification's InvalidArgumentsError). A missing
  dictionary key raises \<open>KeyError\<close>.
\<close>

datatype message =
    Unknown_color_name string
  | Unsupported_arguments "pyval list" "(string \<times> pyval) list"

datatype exn = ValueError message | TypeError | KeyError string

section \<open>Color\<close>

text \<open>
  \<open>Quantity_ColorRGBA\<close> is the kernel's colour object: four channels. The constructor
  \<open>Quantity_ColorRGBA(r, g, b, a)\<close> stores the four values, \<open>SetAlpha\<close> replaces the fourth.
\<close>

record Quantity_ColorRGBA =
  Red :: real
  Green :: real
  Blue :: real
  Alpha :: real

definition SetAlpha :: "real \<Rightarrow> Quantity_ColorRGBA \<Rightarrow> Quantity_ColorRGBA" where
  "SetAlpha a c = c\<lparr>Alpha := a\<rparr>"

datatype Color = Color (wrapped: Quantity_ColorRGBA)

text \<open>\<open>kwargs.get(key)\<close>: the value stored under the key, \<open>None\<close> when there is none.\<close>

definition kwargs_get :: "(string \<times> pyval) list \<Rightarrow> string \<Rightarrow> pyval" where
  "kwargs_get kwargs key = (case map_of kwargs key of None \<Rightarrow> PyNone | Some v \<Rightarrow> v)"

text \<open>
  \<open>Color.__init__(self, *args, **kwargs)\<close>. The kernel's palette
  \<open>Quantity_ColorRGBA.ColorFromName_s\<close> is a parameter: it maps a name to its colour, and
  \<open>None\<close> stands for its answer \<open>False\<close>. The result is the constructed object or the
  exception raised.
\<close>

definition Color_init ::
  "(string \<Rightarrow> Quantity_ColorRGBA option) \<Rightarrow> pyval list \<Rightarrow> (string \<times> pyval) list \<Rightarrow> exn + Color"
where
  "Color_init ColorFromName_s args kwargs =
    (if length args = 1 then
       (case args ! 0 of
          PyStr nm \<Rightarrow>
            (case ColorFromName_s nm of
               None \<Rightarrow> Inl (ValueError (Unknown_color_name nm))
             | Some c \<Rightarrow> Inr (Color c))
        | _ \<Rightarrow> Inl TypeError)
     else if length args = 3 then
       (case (as_float (args ! 0), as_float (args ! 1), as_float (args ! 2)) of
          (Some r, Some g, Some b) \<Rightarrow>
            (let w = \<lparr>Red = r, Green = g, Blue = b, Alpha = 1\<rparr> in
             if truthy (kwargs_get kwargs ''a'') then
               (case as_float (kwargs_get kwargs ''a'') of
                  Some a \<Rightarrow> Inr (Color (SetAlpha a w))
                | None \<Rightarrow> Inl TypeError)
             else Inr (Color w))
        | _ \<Rightarrow> Inl TypeError)
     else if length args = 4 then
       (case (as_float (args ! 0), as_float (args ! 1), as_float (args ! 2), as_float (args ! 3)) of
          (Some r, Some g, Some b, Some a) \<Rightarrow>
            Inr (Color \<lparr>Red = r, Green = g, Blue = b, Alpha = a\<rparr>)
        | _ \<Rightarrow> Inl TypeError)
     else Inl (ValueError (Unsupported_arguments args kwargs)))"

text \<open>A small palette for the examples.\<close>

definition demo_palette :: "string \<Rightarrow> Quantity_ColorRGBA option" where
  "demo_palette nm =
    (if nm = ''red'' then Some \<lparr>Red = 1, Green = 0, Blue = 0, Alpha = 1\<rparr>
     else if nm = ''green'' then Some \<lparr>Red = 0, Green = 1, Blue = 0, Alpha = 1\<rparr>
     else None)"

section \<open>Assemblies and the kernel's document\<close>

text \<open>
  Geometry and placements are opaque to this code: a shape is a handle, a compound is
  made of the shapes it was built from, and \<open>TopLoc_Location()\<close> is the identity
  placement. \<open>Location\<close> wraps the kernel's placement as \<open>Color\<close> wraps the colour.
\<close>

datatype Shape = Shape nat

datatype Compound = Compound "Shape list"

definition makeCompound :: "Shape list \<Rightarrow> Compound" where
  "makeCompound ss = Compound ss"

datatype TopLoc_Location = TopLoc_Identity | TopLoc_Transform nat

datatype Location = Location (wrapped_loc: TopLoc_Location)

text \<open>
  An assembly node is a Python object, reached by reference; \<open>children\<close> and \<open>parent\<close>
  hold references. The heap gives the object behind every reference (a Python reference
  never dangles). Nothing forces the \<open>parent\<close> references to be acyclic.
\<close>

type_synonym ref = nat

record assembly =
  loc :: Location
  name :: string
  color :: "Color option"
  shapes :: "Shape list"
  children :: "ref list"
  parent :: "ref option"

type_synonym heap = "ref \<Rightarrow> assembly"

text \<open>
  The document of the kernel, as far as \<open>toCAF\<close> writes to it: the labels made by
  \<open>NewShape\<close> (numbered in the order of their creation), the name, the shape and the
  surface colour attached to a label, and the components added, in the order of the
  calls: (assembly label, component label, placement).
\<close>

type_synonym label = nat

record document =
  storage_format :: string
  auto_naming :: bool
  labels :: nat
  name_attr :: "label \<rightharpoonup> string"
  shape_attr :: "label \<rightharpoonup> Compound"
  color_attr :: "label \<rightharpoonup> Quantity_ColorRGBA"
  components :: "(label \<times> label \<times> TopLoc_Location) list"
  assemblies_updated :: bool

definition TDocStd_Document :: "string \<Rightarrow> document" where
  "TDocStd_Document fmt =
    \<lparr>storage_format = fmt, auto_naming = True, labels = 0, name_attr = Map.empty,
     shape_attr = Map.empty, color_attr = Map.empty, components = [],
     assemblies_updated = False\<rparr>"

definition SetAutoNaming_s :: "bool \<Rightarrow> document \<Rightarrow> document" where
  "SetAutoNaming_s b d = d\<lparr>auto_naming := b\<rparr>"

definition NewShape :: "document \<Rightarrow> label \<times> document" where
  "NewShape d = (labels d, d\<lparr>labels := Suc (labels d)\<rparr>)"

definition SetShape :: "label \<Rightarrow> Compound \<Rightarrow> document \<Rightarrow> document" where
  "SetShape l s d = d\<lparr>shape_attr := (shape_attr d)(l \<mapsto> s)\<rparr>"

definition AddComponent :: "label \<Rightarrow> label \<Rightarrow> TopLoc_Location \<Rightarrow> document \<Rightarrow> document" where
  "AddComponent l sub_l pl d = d\<lparr>components := components d @ [(l, sub_l, pl)]\<rparr>"

definition SetColor :: "label \<Rightarrow> Quantity_ColorRGBA \<Rightarrow> document \<Rightarrow> document" where
  "SetColor l c d = d\<lparr>color_attr := (color_attr d)(l \<mapsto> c)\<rparr>"

definition UpdateAssemblies :: "document \<Rightarrow> document" where
  "UpdateAssemblies d = d\<lparr>assemblies_updated := True\<rparr>"

definition TDataStd_Name_Set_s :: "label \<Rightarrow> string \<Rightarrow> document \<Rightarrow> document" where
  "TDataStd_Name_Set_s l n d = d\<lparr>name_attr := (name_attr d)(l \<mapsto> n)\<rparr>"

definition setName :: "label \<Rightarrow> string \<Rightarrow> document \<Rightarrow> document" where
  "setName l nm d = TDataStd_Name_Set_s l nm d"

definition setColor :: "label \<Rightarrow> Color \<Rightarrow> document \<Rightarrow> document" where
  "setColor l c d = SetColor l (wrapped c) d"

section \<open>toCAF\<close>

text \<open>
  \<open>while not color and tmp.parent: tmp = tmp.parent; color = tmp.color\<close>. A \<open>Color\<close>
  and an assembly object are true in Python, \<open>None\<close> is false. The walk need not end
  (a cycle of parents without a colour): the result \<open>None\<close> is the loop that never
  returns, \<open>Some c\<close> is the value of \<open>color\<close> when it does.
\<close>

partial_function (option) color_walk :: "heap \<Rightarrow> Color option \<Rightarrow> ref \<Rightarrow> Color option option" where
  "color_walk h c tmp =
    (if c = None \<and> parent (h tmp) \<noteq> None
     then color_walk h (color (h (the (parent (h tmp))))) (the (parent (h tmp)))
     else Some c)"

text \<open>The block \<open>handle colors\<close> of the loop body, for the node \<open>v\<close> and its two labels.\<close>

definition handle_colors ::
  "heap \<Rightarrow> bool \<Rightarrow> ref \<Rightarrow> label \<Rightarrow> label \<Rightarrow> document \<Rightarrow> document option"
where
  "handle_colors h coloredSTEP v lab subassy d =
    (if coloredSTEP then
       (case color_walk h (color (h v)) v of
          None \<Rightarrow> None
        | Some c \<Rightarrow> Some (case c of Some cl \<Rightarrow> setColor lab cl d | None \<Rightarrow> d))
     else
       Some (case color (h v) of Some cl \<Rightarrow> setColor subassy cl d | None \<Rightarrow> d))"

text \<open>
  \<open>for ch in v.children: tool.AddComponent(subassy, subassys[ch.name][0],
  subassys[ch.name][1].wrapped)\<close>. A name that is not a key of the dictionary raises
  \<open>KeyError\<close>.
\<close>

type_synonym subassys = "string \<rightharpoonup> label \<times> Location"

fun add_children :: "heap \<Rightarrow> subassys \<Rightarrow> label \<Rightarrow> ref list \<Rightarrow> document \<Rightarrow> exn + document" where
  "add_children h sub subassy [] d = Inr d"
| "add_children h sub subassy (ch # chs) d =
    (case sub (name (h ch)) of
       None \<Rightarrow> Inl (KeyError (name (h ch)))
     | Some e \<Rightarrow> add_children h sub subassy chs (AddComponent subassy (fst e) (wrapped_loc (snd e)) d))"

text \<open>One pass of the loop \<open>for k, v in assy.traverse()\<close>.\<close>

definition toCAF_body ::
  "heap \<Rightarrow> bool \<Rightarrow> string \<times> ref \<Rightarrow> document \<times> subassys \<Rightarrow> (exn + document \<times> subassys) option"
where
  "toCAF_body h coloredSTEP kv st =
    (let k = fst kv; v = snd kv; d = fst st; sub = snd st;
         (lab, d) = NewShape d;
         d = SetShape lab (makeCompound (shapes (h v))) d;
         d = setName lab (k @ ''_part'') d;
         (subassy, d) = NewShape d;
         d = AddComponent subassy lab TopLoc_Identity d;
         d = setName subassy k d
     in case handle_colors h coloredSTEP v lab subassy d of
          None \<Rightarrow> None
        | Some d \<Rightarrow>
            (let sub = sub(k \<mapsto> (subassy, loc (h v)))
             in case add_children h sub subassy (children (h v)) d of
                  Inl e \<Rightarrow> Some (Inl e)
                | Inr d \<Rightarrow> Some (Inr (d, sub))))"

fun toCAF_loop ::
  "heap \<Rightarrow> bool \<Rightarrow> (string \<times> ref) list \<Rightarrow> document \<times> subassys \<Rightarrow> (exn + document \<times> subassys) option"
where
  "toCAF_loop h coloredSTEP [] st = Some (Inr st)"
| "toCAF_loop h coloredSTEP (kv # rest) st =
    (case toCAF_body h coloredSTEP kv st of
       None \<Rightarrow> None
     | Some (Inl e) \<Rightarrow> Some (Inl e)
     | Some (Inr st') \<Rightarrow> toCAF_loop h coloredSTEP rest st')"

text \<open>
  \<open>toCAF(assy, coloredSTEP)\<close>. The method \<open>traverse\<close> belongs to the assembly protocol
  and is a parameter: \<open>traverse assy\<close> is the sequence of pairs it yields. The result is
  \<open>None\<close> when a walk up the parents never ends, the exception raised, or the pair
  \<open>(top, doc)\<close>.
\<close>

definition toCAF ::
  "heap \<Rightarrow> (ref \<Rightarrow> (string \<times> ref) list) \<Rightarrow> ref \<Rightarrow> bool \<Rightarrow> (exn + label \<times> document) option"
where
  "toCAF h traverse assy coloredSTEP =
    (let doc = TDocStd_Document ''XmlOcaf'';
         doc = SetAutoNaming_s False doc;
         (top, doc) = NewShape doc;
         doc = TDataStd_Name_Set_s top ''CQ assembly'' doc
     in case toCAF_loop h coloredSTEP (traverse assy) (doc, Map.empty) of
          None \<Rightarrow> None
        | Some (Inl e) \<Rightarrow> Some (Inl e)
        | Some (Inr (doc, subassys)) \<Rightarrow>
            (case subassys (name (h assy)) of
               None \<Rightarrow> Some (Inl (KeyError (name (h assy))))
             | Some e \<Rightarrow>
                 Some (Inr (top,
                   UpdateAssemblies (AddComponent top (fst e) (wrapped_loc (loc (h assy))) doc)))))"

section \<open>Notions of the specification\<close>

text \<open>
  \<open>up_path h v ps a\<close>: following the \<open>parent\<close> references from \<open>v\<close> one passes the nodes
  \<open>ps\<close>, none of which has a colour, and then reaches \<open>a\<close>. When \<open>a\<close> has a colour it is
  the nearest ancestor of \<open>v\<close> that has one.
\<close>

fun up_path :: "heap \<Rightarrow> ref \<Rightarrow> ref list \<Rightarrow> ref \<Rightarrow> bool" where
  "up_path h v [] a = (parent (h v) = Some a)"
| "up_path h v (p # ps) a = (parent (h v) = Some p \<and> color (h p) = None \<and> up_path h p ps a)"

text \<open>
  \<open>walk_ends_within h n v\<close>: following the \<open>parent\<close> references from \<open>v\<close>, at most \<open>n\<close>
  steps lead to a node that has a colour or has no parent. There the walk of \<open>toCAF\<close>
  up the parents stops.
\<close>

fun walk_ends_within :: "heap \<Rightarrow> nat \<Rightarrow> ref \<Rightarrow> bool" where
  "walk_ends_within h 0 v = (color (h v) \<noteq> None \<or> parent (h v) = None)"
| "walk_ends_within h (Suc n) v =
    (color (h v) \<noteq> None \<or>
     (case parent (h v) of None \<Rightarrow> True | Some p \<Rightarrow> walk_ends_within h n p))"

text \<open>
  \<open>children_recorded h seen xs\<close>: every child of a node yielded in \<open>xs\<close> bears a name
  that is the key of that node or of a node yielded before it, or is among \<open>seen\<close>. This
  is the invariant of the dictionary \<open>subassys\<close>: a child's name is a key of it when the
  parent is processed.
\<close>

fun children_recorded :: "heap \<Rightarrow> string list \<Rightarrow> (string \<times> ref) list \<Rightarrow> bool" where
  "children_recorded h seen [] = True"
| "children_recorded h seen (kv # rest) =
    ((\<forall>ch\<in>set (children (h (snd kv))). name (h ch) \<in> set (fst kv # seen)) \<and>
     children_recorded h (fst kv # seen) rest)"

text \<open>
  The labels are numbered in the order of their creation: the root label is 0, and the
  pass for the \<open>i\<close>-th pair of the traversal (counted from 0) creates the part label
  and then the assembly label of that node.
\<close>

definition part_label :: "nat \<Rightarrow> label" where
  "part_label i = 2 * i + 1"

definition assy_label :: "nat \<Rightarrow> label" where
  "assy_label i = 2 * i + 2"

section \<open>Examples\<close>

text \<open>
  A tree of three nodes: the root \<open>R\<close> (red) holds \<open>A\<close>, which holds \<open>B\<close>; neither \<open>A\<close>
  nor \<open>B\<close> has a colour of its own. The traversal yields the children before their
  parent, each under its own name.
\<close>

definition red :: Color where
  "red = Color \<lparr>Red = 1, Green = 0, Blue = 0, Alpha = 1\<rparr>"

definition demo_heap :: heap where
  "demo_heap r =
    (if r = 0 then
       \<lparr>loc = Location (TopLoc_Transform 10), name = ''R'', color = Some red,
        shapes = [], children = [1], parent = None\<rparr>
     else if r = 1 then
       \<lparr>loc = Location (TopLoc_Transform 11), name = ''A'', color = None,
        shapes = [Shape 5], children = [2], parent = Some 0\<rparr>
     else
       \<lparr>loc = Location (TopLoc_Transform 12), name = ''B'', color = None,
        shapes = [Shape 6, Shape 7], children = [], parent = Some 1\<rparr>)"

definition demo_traverse :: "ref \<Rightarrow> (string \<times> ref) list" where
  "demo_traverse r = [(''B'', 2), (''A'', 1), (''R'', 0)]"

text \<open>The same tree traversed the wrong way round: every parent before its children.\<close>

definition demo_parent_first :: "ref \<Rightarrow> (string \<times> ref) list" where
  "demo_parent_first r = [(''R'', 0), (''A'', 1), (''B'', 2)]"

section \<open>Properties of Color\<close>

text \<open>
  C3. The claim: a Color built from exactly three values \<open>(r, g, b)\<close> with no alpha
  argument has the alpha channel 0. The code builds \<open>Quantity_ColorRGBA(r, g, b, 1)\<close>
  and leaves it so when no \<open>a\<close> is given: the alpha channel is 1, whereas the
  signature and the docstring of the constructor announce the default 0.
\<close>

theorem Color_three_values_default_alpha:
  "Color_init pal [PyFloat r, PyFloat g, PyFloat b] [] =
     Inr (Color \<lparr>Red = r, Green = g, Blue = b, Alpha = 1\<rparr>)"
  by (simp add: Color_init_def kwargs_get_def)

text \<open>
  C4. A Color built from one name string is the palette's colour of that name when the
  palette knows the name, and the constructor raises the ValueError
  \<open>Unknown color name\<close> when it does not; keyword arguments play no part.
\<close>

theorem Color_from_name:
  "(pal nm = Some c \<longrightarrow> Color_init pal [PyStr nm] kwargs = Inr (Color c)) \<and>
   (pal nm = None \<longrightarrow>
      Color_init pal [PyStr nm] kwargs = Inl (ValueError (Unknown_color_name nm)))"
  by (simp add: Color_init_def)

theorem Color_from_name_witness:
  "Color_init demo_palette [PyStr ''red''] [] =
     Inr (Color \<lparr>Red = 1, Green = 0, Blue = 0, Alpha = 1\<rparr>) \<and>
   Color_init demo_palette [PyStr ''mauve''] [] =
     Inl (ValueError (Unknown_color_name ''mauve''))"
  using Color_from_name [of demo_palette "''red''" "\<lparr>Red = 1, Green = 0, Blue = 0, Alpha = 1\<rparr>" "[]"]
    Color_from_name [of demo_palette "''mauve''" undefined "[]"]
  by (simp add: demo_palette_def)

text \<open>
  C5. The claim: every argument shape other than one name string, three floats or four
  floats raises the ValueError \<open>Unsupported arguments\<close>. The constructor looks at the
  number of positional arguments only. One positional argument that is not a string
  takes the branch of the named colours and never reaches that error.
\<close>

theorem Color_one_float_counterexample:
  "Color_init demo_palette [PyFloat (1/2)] [] \<noteq>
     Inl (ValueError (Unsupported_arguments [PyFloat (1/2)] []))"
  by (simp add: Color_init_def)

text \<open>
  C5, amended. A number of positional arguments other than one, three and four raises
  the ValueError \<open>Unsupported arguments\<close>, whatever the arguments and the keyword
  arguments are.
\<close>

theorem Color_unsupported_arguments:
  "length args \<noteq> 1 \<Longrightarrow> length args \<noteq> 3 \<Longrightarrow> length args \<noteq> 4 \<Longrightarrow>
   Color_init pal args kwargs = Inl (ValueError (Unsupported_arguments args kwargs))"
  by (simp add: Color_init_def)

theorem Color_unsupported_arguments_witness:
  "Color_init demo_palette [] [] = Inl (ValueError (Unsupported_arguments [] [])) \<and>
   Color_init demo_palette [PyFloat 1, PyFloat 0] [(''a'', PyFloat 1)] =
     Inl (ValueError (Unsupported_arguments [PyFloat 1, PyFloat 0] [(''a'', PyFloat 1)]))"
  using Color_unsupported_arguments [of "[]" demo_palette "[]"]
    Color_unsupported_arguments [of "[PyFloat 1, PyFloat 0]" demo_palette "[(''a'', PyFloat 1)]"]
  by simp



text \<open>
  C10. With three positional values and the keyword \<open>a\<close>, the alpha given is applied
  only when it is not zero: \<open>a=0\<close> and \<open>a=0.0\<close> leave the alpha channel at 1.
\<close>

theorem Color_alpha_keyword_zero:
  "Color_init pal [PyFloat r, PyFloat g, PyFloat b] [(''a'', PyFloat x)] =
     Inr (Color \<lparr>Red = r, Green = g, Blue = b, Alpha = (if x = 0 then 1 else x)\<rparr>) \<and>
   Color_init pal [PyFloat r, PyFloat g, PyFloat b] [(''a'', PyInt n)] =
     Inr (Color \<lparr>Red = r, Green = g, Blue = b, Alpha = (if n = 0 then 1 else of_int n)\<rparr>)"
  by (simp add: Color_init_def kwargs_get_def SetAlpha_def)

section \<open>The loop of toCAF\<close>

lemma color_walk_Some [simp]: "color_walk h (Some c) tmp = Some (Some c)"
  by (subst color_walk.simps) simp

lemma color_walk_root: "parent (h tmp) = None \<Longrightarrow> color_walk h c tmp = Some c"
  by (subst color_walk.simps) simp

lemma color_walk_step:
  "parent (h tmp) = Some p \<Longrightarrow> color_walk h None tmp = color_walk h (color (h p)) p"
  by (subst color_walk.simps) simp

lemma color_walk_up_path:
  "up_path h v ps a \<Longrightarrow> color (h a) = Some c \<Longrightarrow> color_walk h None v = Some (Some c)"
  by (induction ps arbitrary: v) (simp_all add: color_walk_step)

lemma add_children_Inr:
  "add_children h sub s chs d = Inr d' \<Longrightarrow>
   d' = d\<lparr>components := components d @
          map (\<lambda>ch. (s, fst (the (sub (name (h ch)))), wrapped_loc (snd (the (sub (name (h ch))))))) chs\<rparr>
   \<and> (\<forall>ch\<in>set chs. sub (name (h ch)) \<noteq> None)"
proof (induction chs arbitrary: d)
  case Nil
  then show ?case by simp
next
  case (Cons ch chs)
  from Cons.prems obtain e where e: "sub (name (h ch)) = Some e"
    and r: "add_children h sub s chs (AddComponent s (fst e) (wrapped_loc (snd e)) d) = Inr d'"
    by (auto split: option.splits)
  from Cons.IH [OF r] e show ?case
    by (simp add: AddComponent_def)
qed

lemma add_children_Inl:
  "add_children h sub s chs d = Inl e \<Longrightarrow>
   \<exists>ch\<in>set chs. sub (name (h ch)) = None \<and> e = KeyError (name (h ch))"
  by (induction chs arbitrary: d) (auto split: option.splits)

lemma add_children_total:
  "\<forall>ch\<in>set chs. sub (name (h ch)) \<noteq> None \<Longrightarrow> \<exists>d'. add_children h sub s chs d = Inr d'"
  by (induction chs arbitrary: d) (auto split: option.splits)

lemma handle_colors_Some:
  "handle_colors h cs v lab subassy d = Some d' \<Longrightarrow>
   labels d' = labels d \<and> name_attr d' = name_attr d \<and> shape_attr d' = shape_attr d \<and>
   components d' = components d \<and>
   color_attr d' =
     (if cs then
        (case color_walk h (color (h v)) v of
           Some (Some c) \<Rightarrow> (color_attr d)(lab \<mapsto> wrapped c)
         | _ \<Rightarrow> color_attr d)
      else
        (case color (h v) of
           Some c \<Rightarrow> (color_attr d)(subassy \<mapsto> wrapped c)
         | None \<Rightarrow> color_attr d))"
  by (auto simp: handle_colors_def setColor_def SetColor_def split: if_splits option.splits)

lemma toCAF_body_Inr:
  assumes "toCAF_body h cs (k, v) (d, sub) = Some (Inr (d', sub'))"
  shows "labels d' = labels d + 2"
    and "sub' = sub(k \<mapsto> (Suc (labels d), loc (h v)))"
    and "name_attr d' = (name_attr d)(labels d \<mapsto> k @ ''_part'', Suc (labels d) \<mapsto> k)"
    and "shape_attr d' = (shape_attr d)(labels d \<mapsto> makeCompound (shapes (h v)))"
    and "color_attr d' =
     (if cs then
        (case color_walk h (color (h v)) v of
           Some (Some c) \<Rightarrow> (color_attr d)(labels d \<mapsto> wrapped c)
         | _ \<Rightarrow> color_attr d)
      else
        (case color (h v) of
           Some c \<Rightarrow> (color_attr d)(Suc (labels d) \<mapsto> wrapped c)
         | None \<Rightarrow> color_attr d))"
    and "components d' = components d @ (Suc (labels d), labels d, TopLoc_Identity) #
          map (\<lambda>ch. (Suc (labels d), fst (the (sub' (name (h ch)))),
                      wrapped_loc (snd (the (sub' (name (h ch))))))) (children (h v))"
    and "\<forall>ch\<in>set (children (h v)). sub' (name (h ch)) \<noteq> None"
proof -
  let ?d0 = "setName (Suc (labels d)) k
      (AddComponent (Suc (labels d)) (labels d) TopLoc_Identity
        ((setName (labels d) (k @ ''_part'')
          (SetShape (labels d) (makeCompound (shapes (h v))) (d\<lparr>labels := Suc (labels d)\<rparr>)))
          \<lparr>labels := Suc (Suc (labels d))\<rparr>))"
  from assms obtain d1 where
    hc: "handle_colors h cs v (labels d) (Suc (labels d)) ?d0 = Some d1" and
    ac: "add_children h (sub(k \<mapsto> (Suc (labels d), loc (h v)))) (Suc (labels d)) (children (h v)) d1 = Inr d'" and
    s: "sub' = sub(k \<mapsto> (Suc (labels d), loc (h v)))"
    by (auto simp: toCAF_body_def Let_def NewShape_def setName_def TDataStd_Name_Set_s_def
        SetShape_def AddComponent_def split: option.splits sum.splits)
  note H = handle_colors_Some [OF hc]
  note A = add_children_Inr [OF ac]
  show "sub' = sub(k \<mapsto> (Suc (labels d), loc (h v)))" by (rule s)
  show "labels d' = labels d + 2"
    using H A by (simp add: setName_def TDataStd_Name_Set_s_def AddComponent_def SetShape_def)
  show "name_attr d' = (name_attr d)(labels d \<mapsto> k @ ''_part'', Suc (labels d) \<mapsto> k)"
    using H A by (simp add: setName_def TDataStd_Name_Set_s_def AddComponent_def SetShape_def)
  show "shape_attr d' = (shape_attr d)(labels d \<mapsto> makeCompound (shapes (h v)))"
    using H A by (simp add: setName_def TDataStd_Name_Set_s_def AddComponent_def SetShape_def)
  show "color_attr d' =
     (if cs then
        (case color_walk h (color (h v)) v of
           Some (Some c) \<Rightarrow> (color_attr d)(labels d \<mapsto> wrapped c)
         | _ \<Rightarrow> color_attr d)
      else
        (case color (h v) of
           Some c \<Rightarrow> (color_attr d)(Suc (labels d) \<mapsto> wrapped c)
         | None \<Rightarrow> color_attr d))"
    using H A by (simp add: setName_def TDataStd_Name_Set_s_def AddComponent_def SetShape_def
        split: option.splits)
  show "components d' = components d @ (Suc (labels d), labels d, TopLoc_Identity) #
          map (\<lambda>ch. (Suc (labels d), fst (the (sub' (name (h ch)))),
                      wrapped_loc (snd (the (sub' (name (h ch))))))) (children (h v))"
    using H A by (simp add: s setName_def TDataStd_Name_Set_s_def AddComponent_def SetShape_def)
  show "\<forall>ch\<in>set (children (h v)). sub' (name (h ch)) \<noteq> None"
    using A unfolding s by blast
qed


lemma toCAF_body_frame:
  assumes "toCAF_body h cs (k, v) (d, sub) = Some (Inr (d', sub'))"
    and "l \<noteq> labels d" and "l \<noteq> Suc (labels d)"
  shows "name_attr d' l = name_attr d l \<and> shape_attr d' l = shape_attr d l \<and>
         color_attr d' l = color_attr d l"
  using toCAF_body_Inr(3,4,5) [OF assms(1)] assms(2,3)
  by (simp split: option.splits)

lemma toCAF_loop_append:
  "toCAF_loop h cs (xs @ ys) st =
    (case toCAF_loop h cs xs st of
       None \<Rightarrow> None
     | Some (Inl e) \<Rightarrow> Some (Inl e)
     | Some (Inr st') \<Rightarrow> toCAF_loop h cs ys st')"
  by (induction xs arbitrary: st) (auto split: option.splits sum.splits)

lemma toCAF_loop_Cons_Inr:
  assumes "toCAF_loop h cs (kv # rest) st = Some (Inr st')"
  obtains st1 where "toCAF_body h cs kv st = Some (Inr st1)"
    and "toCAF_loop h cs rest st1 = Some (Inr st')"
  using assms by (auto split: option.splits sum.splits)

lemma toCAF_loop_Cons_pair:
  assumes "toCAF_loop h cs (kv # rest) (d, sub) = Some (Inr (d', sub'))"
  obtains d1 sub1 where "toCAF_body h cs (fst kv, snd kv) (d, sub) = Some (Inr (d1, sub1))"
    and "toCAF_loop h cs rest (d1, sub1) = Some (Inr (d', sub'))"
proof -
  from assms obtain st1 where "toCAF_body h cs kv (d, sub) = Some (Inr st1)"
    and "toCAF_loop h cs rest st1 = Some (Inr (d', sub'))"
    by (rule toCAF_loop_Cons_Inr)
  then show thesis using that [of "fst st1" "snd st1"] by simp
qed

lemma toCAF_loop_labels:
  "toCAF_loop h cs xs (d, sub) = Some (Inr (d', sub')) \<Longrightarrow> labels d' = labels d + 2 * length xs"
proof (induction xs arbitrary: d sub)
  case Nil
  then show ?case by simp
next
  case (Cons kv rest)
  from Cons.prems obtain d1 sub1 where
    b: "toCAF_body h cs (fst kv, snd kv) (d, sub) = Some (Inr (d1, sub1))" and
    r: "toCAF_loop h cs rest (d1, sub1) = Some (Inr (d', sub'))"
    by (rule toCAF_loop_Cons_pair)
  from Cons.IH [OF r] toCAF_body_Inr(1) [OF b] show ?case by simp
qed

lemma toCAF_loop_frame:
  "toCAF_loop h cs xs (d, sub) = Some (Inr (d', sub')) \<Longrightarrow>
   l < labels d \<or> labels d + 2 * length xs \<le> l \<Longrightarrow>
   name_attr d' l = name_attr d l \<and> shape_attr d' l = shape_attr d l \<and>
   color_attr d' l = color_attr d l"
proof (induction xs arbitrary: d sub)
  case Nil
  then show ?case by simp
next
  case (Cons kv rest)
  from Cons.prems(1) obtain d1 sub1 where
    b: "toCAF_body h cs (fst kv, snd kv) (d, sub) = Some (Inr (d1, sub1))" and
    r: "toCAF_loop h cs rest (d1, sub1) = Some (Inr (d', sub'))"
    by (rule toCAF_loop_Cons_pair)
  have l1: "labels d1 = labels d + 2" by (rule toCAF_body_Inr(1) [OF b])
  from Cons.prems(2) have "l \<noteq> labels d" "l \<noteq> Suc (labels d)" by auto
  from toCAF_body_frame [OF b this]
  have f: "name_attr d1 l = name_attr d l \<and> shape_attr d1 l = shape_attr d l \<and>
         color_attr d1 l = color_attr d l" .
  from Cons.prems(2) l1 have "l < labels d1 \<or> labels d1 + 2 * length rest \<le> l" by auto
  from Cons.IH [OF r this] f show ?case by simp
qed

lemma toCAF_loop_nth:
  assumes "toCAF_loop h cs xs st = Some (Inr st')" and "i < length xs"
  obtains sti sti1 where "toCAF_loop h cs (take i xs) st = Some (Inr sti)"
    and "toCAF_body h cs (xs ! i) sti = Some (Inr sti1)"
    and "toCAF_loop h cs (drop (Suc i) xs) sti1 = Some (Inr st')"
proof -
  have "xs = take i xs @ (xs ! i # drop (Suc i) xs)"
    using assms(2) by (simp add: id_take_nth_drop)
  then have "toCAF_loop h cs (take i xs @ (xs ! i # drop (Suc i) xs)) st = Some (Inr st')"
    using assms(1) by simp
  then show thesis
    by (auto simp: toCAF_loop_append split: option.splits sum.splits intro: that)
qed

lemma toCAF_loop_cells:
  assumes "toCAF_loop h cs xs (d, sub) = Some (Inr (d', sub'))"
    and "i < length xs" and "xs ! i = (k, v)"
  shows "name_attr d' (labels d + 2 * i) = Some (k @ ''_part'')"
    and "name_attr d' (Suc (labels d + 2 * i)) = Some k"
    and "shape_attr d' (labels d + 2 * i) = Some (makeCompound (shapes (h v)))"
    and "shape_attr d' (Suc (labels d + 2 * i)) = shape_attr d (Suc (labels d + 2 * i))"
    and "color_attr d' (labels d + 2 * i) =
      (if cs then
         (case color_walk h (color (h v)) v of
            Some (Some c) \<Rightarrow> Some (wrapped c)
          | _ \<Rightarrow> color_attr d (labels d + 2 * i))
       else color_attr d (labels d + 2 * i))"
    and "color_attr d' (Suc (labels d + 2 * i)) =
      (if cs then color_attr d (Suc (labels d + 2 * i))
       else
         (case color (h v) of
            Some c \<Rightarrow> Some (wrapped c)
          | None \<Rightarrow> color_attr d (Suc (labels d + 2 * i))))"
proof -
  from toCAF_loop_nth [OF assms(1,2)] assms(3) obtain di subi di1 subi1 where
    t: "toCAF_loop h cs (take i xs) (d, sub) = Some (Inr (di, subi))" and
    b: "toCAF_body h cs (k, v) (di, subi) = Some (Inr (di1, subi1))" and
    r: "toCAF_loop h cs (drop (Suc i) xs) (di1, subi1) = Some (Inr (d', sub'))"
    by (metis surj_pair)
  have li: "labels di = labels d + 2 * i"
    using toCAF_loop_labels [OF t] assms(2) by simp
  have li1: "labels di1 = labels di + 2" by (rule toCAF_body_Inr(1) [OF b])
  have pre: "name_attr di l = name_attr d l \<and> shape_attr di l = shape_attr d l \<and>
         color_attr di l = color_attr d l" if "labels d + 2 * i \<le> l" for l
    using toCAF_loop_frame [OF t, of l] that assms(2) by simp
  have post: "name_attr d' l = name_attr di1 l \<and> shape_attr d' l = shape_attr di1 l \<and>
         color_attr d' l = color_attr di1 l" if "l < labels di1" for l
    using toCAF_loop_frame [OF r, of l] that by simp
  note B = toCAF_body_Inr [OF b]
  show "name_attr d' (labels d + 2 * i) = Some (k @ ''_part'')"
    using post [of "labels d + 2 * i"] B(3) li li1 by simp
  show "name_attr d' (Suc (labels d + 2 * i)) = Some k"
    using post [of "Suc (labels d + 2 * i)"] B(3) li li1 by simp
  show "shape_attr d' (labels d + 2 * i) = Some (makeCompound (shapes (h v)))"
    using post [of "labels d + 2 * i"] B(4) li li1 by simp
  show "shape_attr d' (Suc (labels d + 2 * i)) = shape_attr d (Suc (labels d + 2 * i))"
    using post [of "Suc (labels d + 2 * i)"] pre [of "Suc (labels d + 2 * i)"] B(4) li li1 by simp
  show "color_attr d' (labels d + 2 * i) =
      (if cs then
         (case color_walk h (color (h v)) v of
            Some (Some c) \<Rightarrow> Some (wrapped c)
          | _ \<Rightarrow> color_attr d (labels d + 2 * i))
       else color_attr d (labels d + 2 * i))"
    using post [of "labels d + 2 * i"] pre [of "labels d + 2 * i"] B(5) li li1
    by (simp split: option.splits)
  show "color_attr d' (Suc (labels d + 2 * i)) =
      (if cs then color_attr d (Suc (labels d + 2 * i))
       else
         (case color (h v) of
            Some c \<Rightarrow> Some (wrapped c)
          | None \<Rightarrow> color_attr d (Suc (labels d + 2 * i))))"
    using post [of "Suc (labels d + 2 * i)"] pre [of "Suc (labels d + 2 * i)"] B(5) li li1
    by (simp split: option.splits)
qed

section \<open>Properties of toCAF\<close>

lemma toCAF_Inr:
  assumes "toCAF h traverse assy cs = Some (Inr (rlab, doc))"
  obtains d0 d' sub' e where "labels d0 = 1"
    and "name_attr d0 = [0 \<mapsto> ''CQ assembly'']"
    and "shape_attr d0 = Map.empty" and "color_attr d0 = Map.empty"
    and "components d0 = []"
    and "toCAF_loop h cs (traverse assy) (d0, Map.empty) = Some (Inr (d', sub'))"
    and "sub' (name (h assy)) = Some e"
    and "doc = UpdateAssemblies (AddComponent 0 (fst e) (wrapped_loc (loc (h assy))) d')"
    and "rlab = 0"
proof -
  let ?d0 = "TDataStd_Name_Set_s 0 ''CQ assembly''
     ((SetAutoNaming_s False (TDocStd_Document ''XmlOcaf''))\<lparr>labels := Suc 0\<rparr>)"
  have eq: "toCAF h traverse assy cs =
    (case toCAF_loop h cs (traverse assy) (?d0, Map.empty) of
          None \<Rightarrow> None
        | Some (Inl e) \<Rightarrow> Some (Inl e)
        | Some (Inr (doc, subassys)) \<Rightarrow>
            (case subassys (name (h assy)) of
               None \<Rightarrow> Some (Inl (KeyError (name (h assy))))
             | Some e \<Rightarrow>
                 Some (Inr (0,
                   UpdateAssemblies (AddComponent 0 (fst e) (wrapped_loc (loc (h assy))) doc)))))"
  proof -
    have n0: "NewShape (SetAutoNaming_s False (TDocStd_Document ''XmlOcaf'')) =
      (0, (SetAutoNaming_s False (TDocStd_Document ''XmlOcaf''))\<lparr>labels := Suc 0\<rparr>)"
      by (simp add: NewShape_def SetAutoNaming_s_def TDocStd_Document_def)
    show ?thesis by (simp add: toCAF_def Let_def n0)
  qed
  from assms obtain d' sub' e where
    "toCAF_loop h cs (traverse assy) (?d0, Map.empty) = Some (Inr (d', sub'))"
    "sub' (name (h assy)) = Some e"
    "doc = UpdateAssemblies (AddComponent 0 (fst e) (wrapped_loc (loc (h assy))) d')"
    "rlab = 0"
    unfolding eq by (auto split: option.splits sum.splits)
  moreover have "labels ?d0 = 1" "name_attr ?d0 = [0 \<mapsto> ''CQ assembly'']"
    "shape_attr ?d0 = Map.empty" "color_attr ?d0 = Map.empty" "components ?d0 = []"
    by (simp_all add: TDataStd_Name_Set_s_def SetAutoNaming_s_def TDocStd_Document_def)
  ultimately show thesis using that by blast
qed

lemma final_attrs:
  "labels (UpdateAssemblies (AddComponent t l p d)) = labels d"
  "name_attr (UpdateAssemblies (AddComponent t l p d)) = name_attr d"
  "shape_attr (UpdateAssemblies (AddComponent t l p d)) = shape_attr d"
  "color_attr (UpdateAssemblies (AddComponent t l p d)) = color_attr d"
  "components (UpdateAssemblies (AddComponent t l p d)) = components d @ [(t, l, p)]"
  by (simp_all add: UpdateAssemblies_def AddComponent_def)

lemma label_cases:
  assumes "l < 2 * n + 1"
  obtains "l = 0" | i where "i < n" "l = part_label i" | i where "i < n" "l = assy_label i"
proof (cases "l = 0")
  case True
  then show ?thesis by (rule that(1))
next
  case False
  show ?thesis
  proof (cases "odd l")
    case True
    then have "l = part_label (l div 2)" "l div 2 < n"
      using assms by (auto simp: part_label_def elim!: oddE)
    then show ?thesis using that(2) by blast
  next
    case False
    with \<open>l \<noteq> 0\<close> have "l = assy_label (l div 2 - 1)" "l div 2 - 1 < n"
      using assms by (auto simp: assy_label_def elim!: evenE)
    then show ?thesis using that(3) by blast
  qed
qed

text \<open>What a document returned by \<open>toCAF\<close> holds: colours with \<open>coloredSTEP=True\<close>.\<close>

lemma colored_inherits_of_result:
  assumes "toCAF h traverse assy True = Some (Inr (rlab, doc))"
    and "i < length (traverse assy)" and "traverse assy ! i = (k, v)"
    and "color (h v) = None" and "up_path h v ps a" and "color (h a) = Some c"
  shows "color_attr doc (part_label i) = Some (wrapped c) \<and>
         color_attr doc (assy_label i) = None"
proof -
  from assms(1) obtain d0 d' sub' e where d0: "labels d0 = 1" "name_attr d0 = [0 \<mapsto> ''CQ assembly'']"
      "shape_attr d0 = Map.empty" "color_attr d0 = Map.empty" "components d0 = []"
    and lp: "toCAF_loop h True (traverse assy) (d0, Map.empty) = Some (Inr (d', sub'))"
    and sb: "sub' (name (h assy)) = Some e"
    and doc: "doc = UpdateAssemblies (AddComponent 0 (fst e) (wrapped_loc (loc (h assy))) d')"
    and root0: "rlab = 0"
    by (rule toCAF_Inr)
  have w: "color_walk h (color (h v)) v = Some (Some c)"
    using color_walk_up_path [OF assms(5,6)] assms(4) by simp
  from toCAF_loop_cells(5,6) [OF lp assms(2,3)] d0 w doc show ?thesis
    by (simp add: final_attrs part_label_def assy_label_def)
qed

text \<open>
  C2. With \<open>coloredSTEP=False\<close>, the colour of a node's assembly label is the node's own
  colour, if it has one, and nothing otherwise, whatever its ancestors are; the part
  label gets no colour.
\<close>

theorem toCAF_plain_own_color:
  assumes "toCAF h traverse assy False = Some (Inr (rlab, doc))"
    and "i < length (traverse assy)" and "traverse assy ! i = (k, v)"
  shows "color_attr doc (assy_label i) = map_option wrapped (color (h v)) \<and>
         color_attr doc (part_label i) = None"
proof -
  from assms(1) obtain d0 d' sub' e where d0: "labels d0 = 1" "name_attr d0 = [0 \<mapsto> ''CQ assembly'']"
      "shape_attr d0 = Map.empty" "color_attr d0 = Map.empty" "components d0 = []"
    and lp: "toCAF_loop h False (traverse assy) (d0, Map.empty) = Some (Inr (d', sub'))"
    and sb: "sub' (name (h assy)) = Some e"
    and doc: "doc = UpdateAssemblies (AddComponent 0 (fst e) (wrapped_loc (loc (h assy))) d')"
    and root0: "rlab = 0"
    by (rule toCAF_Inr)
  from toCAF_loop_cells(5,6) [OF lp assms(2,3)] d0 doc show ?thesis
    by (simp add: final_attrs part_label_def assy_label_def split: option.splits)
qed

text \<open>What a document returned by \<open>toCAF\<close> holds: labels, names and shapes.\<close>

lemma creates_labels_of_result:
  assumes "toCAF h traverse assy coloredSTEP = Some (Inr (rlab, doc))"
  shows "labels doc = 2 * length (traverse assy) + 1 \<and>
    rlab = 0 \<and> name_attr doc rlab = Some ''CQ assembly'' \<and> shape_attr doc rlab = None \<and>
    (\<forall>i<length (traverse assy).
       name_attr doc (part_label i) = Some (fst (traverse assy ! i) @ ''_part'') \<and>
       shape_attr doc (part_label i) = Some (makeCompound (shapes (h (snd (traverse assy ! i))))) \<and>
       name_attr doc (assy_label i) = Some (fst (traverse assy ! i)) \<and>
       shape_attr doc (assy_label i) = None) \<and>
    {..<labels doc} =
       {rlab} \<union> part_label ` {..<length (traverse assy)} \<union> assy_label ` {..<length (traverse assy)} \<and>
    card (part_label ` {..<length (traverse assy)}) = length (traverse assy) \<and>
    card (assy_label ` {..<length (traverse assy)}) = length (traverse assy) \<and>
    part_label ` {..<length (traverse assy)} \<inter> assy_label ` {..<length (traverse assy)} = {} \<and>
    rlab \<notin> part_label ` {..<length (traverse assy)} \<union> assy_label ` {..<length (traverse assy)}"
proof -
  let ?xs = "traverse assy"
  from assms obtain d0 d' sub' e where d0: "labels d0 = 1" "name_attr d0 = [0 \<mapsto> ''CQ assembly'']"
      "shape_attr d0 = Map.empty" "color_attr d0 = Map.empty" "components d0 = []"
    and lp: "toCAF_loop h coloredSTEP (traverse assy) (d0, Map.empty) = Some (Inr (d', sub'))"
    and sb: "sub' (name (h assy)) = Some e"
    and doc: "doc = UpdateAssemblies (AddComponent 0 (fst e) (wrapped_loc (loc (h assy))) d')"
    and root0: "rlab = 0"
    by (rule toCAF_Inr)
  have n: "labels doc = 2 * length ?xs + 1"
    using toCAF_loop_labels [OF lp] d0 doc by (simp add: final_attrs)
  have rt: "name_attr doc rlab = Some ''CQ assembly'' \<and> shape_attr doc rlab = None"
    using toCAF_loop_frame [OF lp, of 0] d0 doc root0 by (simp add: final_attrs)
  have cells: "name_attr doc (part_label i) = Some (fst (?xs ! i) @ ''_part'') \<and>
       shape_attr doc (part_label i) = Some (makeCompound (shapes (h (snd (?xs ! i))))) \<and>
       name_attr doc (assy_label i) = Some (fst (?xs ! i)) \<and>
       shape_attr doc (assy_label i) = None" if "i < length ?xs" for i
    using toCAF_loop_cells(1-4) [OF lp that, of "fst (?xs ! i)" "snd (?xs ! i)"] d0 doc
    by (simp add: final_attrs part_label_def assy_label_def)
  have part: "{..<labels doc} = {rlab} \<union> part_label ` {..<length ?xs} \<union> assy_label ` {..<length ?xs}"
  proof (rule set_eqI)
    fix l
    show "l \<in> {..<labels doc} \<longleftrightarrow>
      l \<in> {rlab} \<union> part_label ` {..<length ?xs} \<union> assy_label ` {..<length ?xs}"
    proof
      assume "l \<in> {..<labels doc}"
      then have "l < 2 * length ?xs + 1" using n by simp
      then show "l \<in> {rlab} \<union> part_label ` {..<length ?xs} \<union> assy_label ` {..<length ?xs}"
        by (rule label_cases) (auto simp: root0)
    next
      assume "l \<in> {rlab} \<union> part_label ` {..<length ?xs} \<union> assy_label ` {..<length ?xs}"
      then show "l \<in> {..<labels doc}"
        by (auto simp: n root0 part_label_def assy_label_def)
    qed
  qed
  have c1: "card (part_label ` {..<length ?xs}) = length ?xs"
    by (simp add: card_image inj_on_def part_label_def)
  have c2: "card (assy_label ` {..<length ?xs}) = length ?xs"
    by (simp add: card_image inj_on_def assy_label_def)
  have dj: "part_label ` {..<length ?xs} \<inter> assy_label ` {..<length ?xs} = {}"
    by (auto simp: part_label_def assy_label_def) presburger
  have nt: "rlab \<notin> part_label ` {..<length ?xs} \<union> assy_label ` {..<length ?xs}"
    by (auto simp: root0 part_label_def assy_label_def)
  from rt have rt1: "name_attr doc rlab = Some ''CQ assembly''"
    and rt2: "shape_attr doc rlab = None" by simp_all
  from cells have cells': "\<forall>i<length ?xs.
       name_attr doc (part_label i) = Some (fst (?xs ! i) @ ''_part'') \<and>
       shape_attr doc (part_label i) = Some (makeCompound (shapes (h (snd (?xs ! i))))) \<and>
       name_attr doc (assy_label i) = Some (fst (?xs ! i)) \<and>
       shape_attr doc (assy_label i) = None" by blast
  show ?thesis
    by (intro conjI) (rule n root0 rt1 rt2 cells' part c1 c2 dj nt)+
qed

lemma toCAF_loop_sub_other:
  "toCAF_loop h cs xs (d, sub) = Some (Inr (d', sub')) \<Longrightarrow> key \<notin> fst ` set xs \<Longrightarrow>
   sub' key = sub key"
proof (induction xs arbitrary: d sub)
  case Nil
  then show ?case by simp
next
  case (Cons kv rest)
  from Cons.prems(1) obtain d1 sub1 where
    b: "toCAF_body h cs (fst kv, snd kv) (d, sub) = Some (Inr (d1, sub1))" and
    r: "toCAF_loop h cs rest (d1, sub1) = Some (Inr (d', sub'))"
    by (rule toCAF_loop_Cons_pair)
  from Cons.prems(2) have "key \<notin> fst ` set rest" "key \<noteq> fst kv" by auto
  with Cons.IH [OF r] toCAF_body_Inr(2) [OF b] show ?case by simp
qed

lemma toCAF_loop_sub_lookup:
  "toCAF_loop h cs xs (d, sub) = Some (Inr (d', sub')) \<Longrightarrow> distinct (map fst xs) \<Longrightarrow>
   j < length xs \<Longrightarrow>
   sub' (fst (xs ! j)) = Some (Suc (labels d + 2 * j), loc (h (snd (xs ! j))))"
proof (induction xs arbitrary: d sub j)
  case Nil
  then show ?case by simp
next
  case (Cons kv rest)
  from Cons.prems(1) obtain d1 sub1 where
    b: "toCAF_body h cs (fst kv, snd kv) (d, sub) = Some (Inr (d1, sub1))" and
    r: "toCAF_loop h cs rest (d1, sub1) = Some (Inr (d', sub'))"
    by (rule toCAF_loop_Cons_pair)
  note B = toCAF_body_Inr(1,2) [OF b]
  show ?case
  proof (cases j)
    case 0
    from Cons.prems(2) have "fst kv \<notin> fst ` set rest" by simp
    from toCAF_loop_sub_other [OF r this] B 0 show ?thesis by simp
  next
    case (Suc j')
    with Cons.prems have "distinct (map fst rest)" "j' < length rest" by simp_all
    from Cons.IH [OF r this] B Suc show ?thesis by simp
  qed
qed

lemma toCAF_loop_components:
  "toCAF_loop h cs xs (d, sub) = Some (Inr (d', sub')) \<Longrightarrow>
   \<exists>ys. components d' = components d @ ys \<and>
     (\<forall>x\<in>set ys. labels d \<le> fst x \<and> fst x < labels d + 2 * length xs)"
proof (induction xs arbitrary: d sub)
  case Nil
  then show ?case by simp
next
  case (Cons kv rest)
  from Cons.prems(1) obtain d1 sub1 where
    b: "toCAF_body h cs (fst kv, snd kv) (d, sub) = Some (Inr (d1, sub1))" and
    r: "toCAF_loop h cs rest (d1, sub1) = Some (Inr (d', sub'))"
    by (rule toCAF_loop_Cons_pair)
  note B = toCAF_body_Inr(1,6) [OF b]
  from Cons.IH [OF r] obtain ys where
    ys: "components d' = components d1 @ ys"
      "\<forall>x\<in>set ys. labels d1 \<le> fst x \<and> fst x < labels d1 + 2 * length rest"
    by blast
  let ?zs = "(Suc (labels d), labels d, TopLoc_Identity) #
          map (\<lambda>ch. (Suc (labels d), fst (the (sub1 (name (h ch)))),
                      wrapped_loc (snd (the (sub1 (name (h ch))))))) (children (h (snd kv)))"
  have 1: "components d' = components d @ (?zs @ ys)"
    using ys(1) B(2) by simp
  have 2: "\<forall>x\<in>set (?zs @ ys). labels d \<le> fst x \<and> fst x < labels d + 2 * length (kv # rest)"
    using ys(2) B(1) by auto
  from 1 2 show ?case by blast
qed

lemma toCAF_loop_take_Suc:
  assumes "toCAF_loop h cs xs st = Some (Inr st')" and "i < length xs"
  obtains sti sti1 where "toCAF_loop h cs (take i xs) st = Some (Inr sti)"
    and "toCAF_body h cs (xs ! i) sti = Some (Inr sti1)"
    and "toCAF_loop h cs (take (Suc i) xs) st = Some (Inr sti1)"
    and "toCAF_loop h cs (drop (Suc i) xs) sti1 = Some (Inr st')"
proof -
  from toCAF_loop_nth [OF assms] obtain sti sti1 where
    t: "toCAF_loop h cs (take i xs) st = Some (Inr sti)" and
    b: "toCAF_body h cs (xs ! i) sti = Some (Inr sti1)" and
    r: "toCAF_loop h cs (drop (Suc i) xs) sti1 = Some (Inr st')"
    by blast
  have ts: "toCAF_loop h cs (take (Suc i) xs) st = Some (Inr sti1)"
    using t b assms(2) by (simp add: take_Suc_conv_app_nth toCAF_loop_append)
  from t b ts r show thesis by (rule that)
qed

lemma toCAF_loop_child_entry:
  assumes lp: "toCAF_loop h cs xs (d0, Map.empty) = Some (Inr (d', sub'))"
    and d0: "labels d0 = 1"
    and dist: "distinct (map fst xs)"
    and i: "i < length xs" and kv: "xs ! i = (k, v)"
  obtains di subi di1 subi1 where
    "toCAF_loop h cs (take i xs) (d0, Map.empty) = Some (Inr (di, subi))"
    and "toCAF_body h cs (k, v) (di, subi) = Some (Inr (di1, subi1))"
    and "toCAF_loop h cs (drop (Suc i) xs) (di1, subi1) = Some (Inr (d', sub'))"
    and "labels di = part_label i"
    and "\<forall>ch\<in>set (children (h v)). \<exists>j\<le>i. fst (xs ! j) = name (h ch) \<and>
            subi1 (name (h ch)) = Some (assy_label j, loc (h (snd (xs ! j))))"
proof -
  from toCAF_loop_take_Suc [OF lp i] kv obtain di subi di1 subi1 where
    t: "toCAF_loop h cs (take i xs) (d0, Map.empty) = Some (Inr (di, subi))" and
    b: "toCAF_body h cs (k, v) (di, subi) = Some (Inr (di1, subi1))" and
    ts: "toCAF_loop h cs (take (Suc i) xs) (d0, Map.empty) = Some (Inr (di1, subi1))" and
    r: "toCAF_loop h cs (drop (Suc i) xs) (di1, subi1) = Some (Inr (d', sub'))"
    by (metis surj_pair)
  have li: "labels di = part_label i"
    using toCAF_loop_labels [OF t] i d0 by (simp add: part_label_def)
  have ent: "\<exists>j\<le>i. fst (xs ! j) = name (h ch) \<and>
            subi1 (name (h ch)) = Some (assy_label j, loc (h (snd (xs ! j))))"
    if ch: "ch \<in> set (children (h v))" for ch
  proof -
    from toCAF_body_Inr(7) [OF b] ch have ne: "subi1 (name (h ch)) \<noteq> None" by blast
    have "name (h ch) \<in> fst ` set (take (Suc i) xs)"
    proof (rule ccontr)
      assume "name (h ch) \<notin> fst ` set (take (Suc i) xs)"
      from toCAF_loop_sub_other [OF ts this] ne show False by simp
    qed
    then obtain j where j: "j < length (take (Suc i) xs)"
      and kj: "fst (take (Suc i) xs ! j) = name (h ch)"
      by (auto simp: in_set_conv_nth)
    from j have ji: "j \<le> i" by simp
    from dist have "distinct (map fst (take (Suc i) xs))"
      by (simp add: take_map [symmetric] distinct_take)
    from toCAF_loop_sub_lookup [OF ts this j] kj ji d0
    have "subi1 (name (h ch)) = Some (assy_label j, loc (h (snd (xs ! j))))"
      by (simp add: assy_label_def)
    moreover from kj ji have "fst (xs ! j) = name (h ch)" by simp
    ultimately show ?thesis using ji by blast
  qed
  from t b r li ent show thesis using that by blast
qed

text \<open>What a document returned by \<open>toCAF\<close> holds: components, when the keys are distinct.\<close>

lemma children_placement_of_result:
  assumes ok: "toCAF h traverse assy coloredSTEP = Some (Inr (rlab, doc))"
    and dist: "distinct (map fst (traverse assy))"
    and i: "i < length (traverse assy)" and kv: "traverse assy ! i = (k, v)"
  shows "(\<forall>ch\<in>set (children (h v)). \<exists>j\<le>i. fst (traverse assy ! j) = name (h ch) \<and>
            (assy_label i, assy_label j, wrapped_loc (loc (h (snd (traverse assy ! j)))))
              \<in> set (components doc)) \<and>
         (\<forall>ch\<in>set (children (h v)). \<forall>j<length (traverse assy).
            traverse assy ! j = (name (h ch), ch) \<longrightarrow>
            j \<le> i \<and> (assy_label i, assy_label j, wrapped_loc (loc (h ch))) \<in> set (components doc)) \<and>
         (\<forall>c pl. (assy_label i, c, pl) \<in> set (components doc) \<longrightarrow>
            (c = part_label i \<and> pl = TopLoc_Identity) \<or>
            (\<exists>ch\<in>set (children (h v)). \<exists>j\<le>i. fst (traverse assy ! j) = name (h ch) \<and>
               c = assy_label j \<and> pl = wrapped_loc (loc (h (snd (traverse assy ! j)))))) \<and>
         (\<exists>r<length (traverse assy). fst (traverse assy ! r) = name (h assy) \<and>
            last (components doc) = (rlab, assy_label r, wrapped_loc (loc (h assy))))"
proof -
  let ?xs = "traverse assy"
  from ok obtain d0 d' sub' e where d0: "labels d0 = 1" "name_attr d0 = [0 \<mapsto> ''CQ assembly'']"
      "shape_attr d0 = Map.empty" "color_attr d0 = Map.empty" "components d0 = []"
    and lp: "toCAF_loop h coloredSTEP (traverse assy) (d0, Map.empty) = Some (Inr (d', sub'))"
    and sb: "sub' (name (h assy)) = Some e"
    and doc: "doc = UpdateAssemblies (AddComponent 0 (fst e) (wrapped_loc (loc (h assy))) d')"
    and root0: "rlab = 0"
    by (rule toCAF_Inr)
  from toCAF_loop_child_entry [OF lp d0(1) dist i kv] obtain di subi di1 subi1 where
    t: "toCAF_loop h coloredSTEP (take i ?xs) (d0, Map.empty) = Some (Inr (di, subi))" and
    b: "toCAF_body h coloredSTEP (k, v) (di, subi) = Some (Inr (di1, subi1))" and
    r: "toCAF_loop h coloredSTEP (drop (Suc i) ?xs) (di1, subi1) = Some (Inr (d', sub'))" and
    li: "labels di = part_label i" and
    ent: "\<forall>ch\<in>set (children (h v)). \<exists>j\<le>i. fst (?xs ! j) = name (h ch) \<and>
            subi1 (name (h ch)) = Some (assy_label j, loc (h (snd (?xs ! j))))"
    by blast
  have al: "Suc (part_label i) = assy_label i"
    by (simp add: part_label_def assy_label_def)
  let ?f = "\<lambda>ch. (assy_label i, fst (the (subi1 (name (h ch)))),
                      wrapped_loc (snd (the (subi1 (name (h ch))))))"
  let ?zs = "(assy_label i, part_label i, TopLoc_Identity) # map ?f (children (h v))"
  from toCAF_loop_components [OF t] d0 i obtain ys1 where
    ys1: "components di = ys1" "\<forall>x\<in>set ys1. fst x < part_label i"
    by (auto simp: part_label_def)
  have zs: "components di1 = ys1 @ ?zs" and li1: "labels di1 = part_label i + 2"
    using toCAF_body_Inr(1,6) [OF b] ys1(1) li al by simp_all
  from toCAF_loop_components [OF r] li1 obtain ys2 where
    ys2: "components d' = ys1 @ ?zs @ ys2" "\<forall>x\<in>set ys2. part_label i + 2 \<le> fst x"
    using zs by auto
  have comps: "components doc = ys1 @ ?zs @ ys2 @ [(0, fst e, wrapped_loc (loc (h assy)))]"
    using ys2(1) doc by (simp add: final_attrs)
  have A: "\<exists>j\<le>i. fst (?xs ! j) = name (h ch) \<and>
            (assy_label i, assy_label j, wrapped_loc (loc (h (snd (?xs ! j))))) \<in> set (components doc)"
    if ch: "ch \<in> set (children (h v))" for ch
  proof -
    from ent ch obtain j where j: "j \<le> i" "fst (?xs ! j) = name (h ch)"
      "subi1 (name (h ch)) = Some (assy_label j, loc (h (snd (?xs ! j))))"
      by blast
    then have fch: "?f ch = (assy_label i, assy_label j, wrapped_loc (loc (h (snd (?xs ! j)))))"
      by simp
    from ch have "?f ch \<in> set ?zs" by simp
    then have "?f ch \<in> set (components doc)" unfolding comps set_append Un_iff by blast
    with fch have "(assy_label i, assy_label j, wrapped_loc (loc (h (snd (?xs ! j)))))
        \<in> set (components doc)" by simp
    with j(1,2) show ?thesis by blast
  qed
  have A': "j \<le> i \<and> (assy_label i, assy_label j, wrapped_loc (loc (h ch))) \<in> set (components doc)"
    if ch: "ch \<in> set (children (h v))" and j: "j < length ?xs" "?xs ! j = (name (h ch), ch)" for ch j
  proof -
    from A [OF ch] obtain j' where j': "j' \<le> i" "fst (?xs ! j') = name (h ch)"
      "(assy_label i, assy_label j', wrapped_loc (loc (h (snd (?xs ! j'))))) \<in> set (components doc)"
      by blast
    have lj: "j' < length (map fst ?xs)" "j < length (map fst ?xs)"
      using j(1) j'(1) i by simp_all
    have "map fst ?xs ! j' = map fst ?xs ! j"
      using j j' i by simp
    with nth_eq_iff_index_eq [OF dist lj] have "j' = j"
      by blast
    with j' j(2) show ?thesis by simp
  qed
  have B: "(c = part_label i \<and> pl = TopLoc_Identity) \<or>
            (\<exists>ch\<in>set (children (h v)). \<exists>j\<le>i. fst (?xs ! j) = name (h ch) \<and>
               c = assy_label j \<and> pl = wrapped_loc (loc (h (snd (?xs ! j)))))"
    if m: "(assy_label i, c, pl) \<in> set (components doc)" for c pl
  proof -
    have n1: "(assy_label i, c, pl) \<notin> set ys1"
    proof
      assume "(assy_label i, c, pl) \<in> set ys1"
      with ys1(2) have "fst (assy_label i, c, pl) < part_label i" by blast
      with al show False by simp
    qed
    have n2: "(assy_label i, c, pl) \<notin> set ys2"
    proof
      assume "(assy_label i, c, pl) \<in> set ys2"
      with ys2(2) have "part_label i + 2 \<le> fst (assy_label i, c, pl)" by blast
      with al show False by simp
    qed
    have n3: "(assy_label i, c, pl) \<noteq> (0, fst e, wrapped_loc (loc (h assy)))"
      by (simp add: assy_label_def)
    from m have "(assy_label i, c, pl) \<in> set ys1 \<or> (assy_label i, c, pl) \<in> set ?zs \<or>
        (assy_label i, c, pl) \<in> set ys2 \<or>
        (assy_label i, c, pl) = (0, fst e, wrapped_loc (loc (h assy)))"
      unfolding comps set_append Un_iff by simp
    with n1 n2 n3 have "(assy_label i, c, pl) \<in> set ?zs"
      by blast
    then have "(c = part_label i \<and> pl = TopLoc_Identity) \<or>
        (assy_label i, c, pl) \<in> ?f ` set (children (h v))"
      by simp
    then consider "c = part_label i \<and> pl = TopLoc_Identity"
      | ch where "ch \<in> set (children (h v))" "(assy_label i, c, pl) = ?f ch"
      by blast
    then show ?thesis
    proof cases
      case 1
      then show ?thesis by blast
    next
      case (2 ch)
      from ent 2(1) obtain j where j: "j \<le> i" "fst (?xs ! j) = name (h ch)"
        "subi1 (name (h ch)) = Some (assy_label j, loc (h (snd (?xs ! j))))"
        by blast
      with 2(2) have "c = assy_label j" "pl = wrapped_loc (loc (h (snd (?xs ! j))))"
        by simp_all
      with 2(1) j(1,2) show ?thesis by blast
    qed
  qed
  have C: "\<exists>r<length ?xs. fst (?xs ! r) = name (h assy) \<and>
            last (components doc) = (rlab, assy_label r, wrapped_loc (loc (h assy)))"
  proof -
    have "name (h assy) \<in> fst ` set ?xs"
    proof (rule ccontr)
      assume "name (h assy) \<notin> fst ` set ?xs"
      from toCAF_loop_sub_other [OF lp this] sb show False by simp
    qed
    then obtain r where r: "r < length ?xs" "fst (?xs ! r) = name (h assy)"
      by (auto simp: in_set_conv_nth)
    from toCAF_loop_sub_lookup [OF lp dist r(1)] r(2) sb d0(1)
    have fe: "fst e = assy_label r" by (auto simp: assy_label_def)
    have "last (components doc) = (0, fst e, wrapped_loc (loc (h assy)))"
      unfolding comps by simp
    with fe root0 have "last (components doc) = (rlab, assy_label r, wrapped_loc (loc (h assy)))"
      by simp
    with r show ?thesis by (intro exI [of _ r]) simp
  qed
  from A have A1: "\<forall>ch\<in>set (children (h v)). \<exists>j\<le>i. fst (?xs ! j) = name (h ch) \<and>
      (assy_label i, assy_label j, wrapped_loc (loc (h (snd (?xs ! j))))) \<in> set (components doc)"
    by blast
  from A' have A2: "\<forall>ch\<in>set (children (h v)). \<forall>j<length ?xs.
      ?xs ! j = (name (h ch), ch) \<longrightarrow>
      j \<le> i \<and> (assy_label i, assy_label j, wrapped_loc (loc (h ch))) \<in> set (components doc)"
    by blast
  from B have B1: "\<forall>c pl. (assy_label i, c, pl) \<in> set (components doc) \<longrightarrow>
      (c = part_label i \<and> pl = TopLoc_Identity) \<or>
      (\<exists>ch\<in>set (children (h v)). \<exists>j\<le>i. fst (?xs ! j) = name (h ch) \<and>
         c = assy_label j \<and> pl = wrapped_loc (loc (h (snd (?xs ! j)))))"
    by blast
  show ?thesis
    by (intro conjI) (rule A1 A2 B1 C)+
qed

lemma toCAF_body_Inl:
  assumes "toCAF_body h cs (k, v) (d, sub) = Some (Inl e)"
  shows "\<exists>ch\<in>set (children (h v)). name (h ch) \<noteq> k \<and> sub (name (h ch)) = None \<and>
           e = KeyError (name (h ch))"
proof -
  from assms obtain d1 where
    "add_children h (sub(k \<mapsto> (Suc (labels d), loc (h v)))) (Suc (labels d)) (children (h v)) d1 = Inl e"
    by (auto simp: toCAF_body_def Let_def NewShape_def setName_def TDataStd_Name_Set_s_def
        SetShape_def AddComponent_def split: option.splits sum.splits)
  from add_children_Inl [OF this] obtain ch where ch: "ch \<in> set (children (h v))"
    "(sub(k \<mapsto> (Suc (labels d), loc (h v)))) (name (h ch)) = None"
    "e = KeyError (name (h ch))"
    by blast
  from ch(2) have "name (h ch) \<noteq> k" "sub (name (h ch)) = None"
    by (auto split: if_splits)
  with ch(1,3) show ?thesis by blast
qed

lemma toCAF_body_plain: "toCAF_body h False kv st \<noteq> None"
  by (simp add: toCAF_body_def Let_def handle_colors_def split_beta split: sum.splits)

lemma toCAF_loop_plain: "toCAF_loop h False xs st \<noteq> None"
proof (induction xs arbitrary: st)
  case Nil
  then show ?case by simp
next
  case (Cons kv rest)
  show ?case
  proof (cases "toCAF_body h False kv st")
    case None
    with toCAF_body_plain show ?thesis by blast
  next
    case (Some r)
    with Cons.IH show ?thesis by (cases r) simp_all
  qed
qed

lemma toCAF_loop_Inl:
  "toCAF_loop h cs xs (d, sub) = Some (Inl e) \<Longrightarrow>
   \<exists>j<length xs. \<exists>ch\<in>set (children (h (snd (xs ! j)))).
     name (h ch) \<notin> dom sub \<union> fst ` set (take (Suc j) xs) \<and> e = KeyError (name (h ch))"
proof (induction xs arbitrary: d sub)
  case Nil
  then show ?case by simp
next
  case (Cons kv rest)
  show ?case
  proof (cases "toCAF_body h cs kv (d, sub)")
    case None
    with Cons.prems show ?thesis by simp
  next
    case (Some r)
    show ?thesis
    proof (cases r)
      case (Inl e')
      with Some Cons.prems have "toCAF_body h cs (fst kv, snd kv) (d, sub) = Some (Inl e)"
        by simp
      from toCAF_body_Inl [OF this] obtain ch where
        "ch \<in> set (children (h (snd kv)))" "name (h ch) \<noteq> fst kv" "sub (name (h ch)) = None"
        "e = KeyError (name (h ch))"
        by blast
      then have "ch \<in> set (children (h (snd ((kv # rest) ! 0))))"
        "name (h ch) \<notin> dom sub \<union> fst ` set (take (Suc 0) (kv # rest))"
        "e = KeyError (name (h ch))"
        by auto
      then show ?thesis by (intro exI [of _ 0]) auto
    next
      case (Inr st1)
      with Some Cons.prems have
        b: "toCAF_body h cs (fst kv, snd kv) (d, sub) = Some (Inr (fst st1, snd st1))" and
        r: "toCAF_loop h cs rest (fst st1, snd st1) = Some (Inl e)"
        by simp_all
      from Cons.IH [OF r] obtain j ch where j: "j < length rest"
        "ch \<in> set (children (h (snd (rest ! j))))"
        "name (h ch) \<notin> dom (snd st1) \<union> fst ` set (take (Suc j) rest)"
        "e = KeyError (name (h ch))"
        by blast
      from toCAF_body_Inr(2) [OF b] have "dom (snd st1) = insert (fst kv) (dom sub)"
        by simp
      with j(3) have "name (h ch) \<notin> dom sub \<union> fst ` set (take (Suc (Suc j)) (kv # rest))"
        by simp
      with j(1,2,4) show ?thesis by (intro exI [of _ "Suc j"]) auto
    qed
  qed
qed

lemma toCAF_loop_Inr_children:
  assumes "toCAF_loop h cs xs (d, sub) = Some (Inr (d', sub'))"
    and "i < length xs" and "ch \<in> set (children (h (snd (xs ! i))))"
  shows "name (h ch) \<in> dom sub \<union> fst ` set (take (Suc i) xs)"
proof (rule ccontr)
  assume n: "name (h ch) \<notin> dom sub \<union> fst ` set (take (Suc i) xs)"
  from toCAF_loop_take_Suc [OF assms(1,2)] obtain di subi di1 subi1 where
    b: "toCAF_body h cs (fst (xs ! i), snd (xs ! i)) (di, subi) = Some (Inr (di1, subi1))" and
    ts: "toCAF_loop h cs (take (Suc i) xs) (d, sub) = Some (Inr (di1, subi1))"
    by (metis prod.collapse)
  from toCAF_body_Inr(7) [OF b] assms(3) have "subi1 (name (h ch)) \<noteq> None" by blast
  moreover from n have "name (h ch) \<notin> fst ` set (take (Suc i) xs)" "sub (name (h ch)) = None"
    by auto
  ultimately show False using toCAF_loop_sub_other [OF ts] by simp
qed

lemma toCAF_of_loop:
  obtains d0 where "labels d0 = 1"
    and "toCAF h traverse assy cs =
      (case toCAF_loop h cs (traverse assy) (d0, Map.empty) of
          None \<Rightarrow> None
        | Some (Inl e) \<Rightarrow> Some (Inl e)
        | Some (Inr (doc, subassys)) \<Rightarrow>
            (case subassys (name (h assy)) of
               None \<Rightarrow> Some (Inl (KeyError (name (h assy))))
             | Some e \<Rightarrow>
                 Some (Inr (0, UpdateAssemblies
                   (AddComponent 0 (fst e) (wrapped_loc (loc (h assy))) doc)))))"
proof -
  let ?d0 = "TDataStd_Name_Set_s 0 ''CQ assembly''
     ((SetAutoNaming_s False (TDocStd_Document ''XmlOcaf''))\<lparr>labels := Suc 0\<rparr>)"
  have n0: "NewShape (SetAutoNaming_s False (TDocStd_Document ''XmlOcaf'')) =
      (0, (SetAutoNaming_s False (TDocStd_Document ''XmlOcaf''))\<lparr>labels := Suc 0\<rparr>)"
    by (simp add: NewShape_def SetAutoNaming_s_def TDocStd_Document_def)
  have "labels ?d0 = 1"
    by (simp add: TDataStd_Name_Set_s_def)
  moreover have "toCAF h traverse assy cs =
      (case toCAF_loop h cs (traverse assy) (?d0, Map.empty) of
          None \<Rightarrow> None
        | Some (Inl e) \<Rightarrow> Some (Inl e)
        | Some (Inr (doc, subassys)) \<Rightarrow>
            (case subassys (name (h assy)) of
               None \<Rightarrow> Some (Inl (KeyError (name (h assy))))
             | Some e \<Rightarrow>
                 Some (Inr (0, UpdateAssemblies
                   (AddComponent 0 (fst e) (wrapped_loc (loc (h assy))) doc)))))"
    by (simp add: toCAF_def Let_def n0)
  ultimately show thesis by (rule that)
qed

text \<open>
  C9. When a child of a yielded node has a name that is not among the keys recorded up to
  that pass, \<open>toCAF\<close> does not return a document: it raises \<open>KeyError\<close> for the name of a
  child that is missing at its lookup (the first such lookup of the run). The only other
  outcome is that, with \<open>coloredSTEP=True\<close>, a walk up the parents never ends before
  that lookup.
\<close>

theorem toCAF_missing_child_raises:
  assumes "i < length (traverse assy)"
    and "ch \<in> set (children (h (snd (traverse assy ! i))))"
    and "name (h ch) \<notin> fst ` set (take (Suc i) (traverse assy))"
  shows "(coloredSTEP \<and> toCAF h traverse assy coloredSTEP = None) \<or>
    (\<exists>j<length (traverse assy). \<exists>c\<in>set (children (h (snd (traverse assy ! j)))).
       name (h c) \<notin> fst ` set (take (Suc j) (traverse assy)) \<and>
       toCAF h traverse assy coloredSTEP = Some (Inl (KeyError (name (h c)))))"
proof -
  let ?xs = "traverse assy"
  obtain d0 where eq: "toCAF h traverse assy coloredSTEP =
      (case toCAF_loop h coloredSTEP ?xs (d0, Map.empty) of
          None \<Rightarrow> None
        | Some (Inl e) \<Rightarrow> Some (Inl e)
        | Some (Inr (doc, subassys)) \<Rightarrow>
            (case subassys (name (h assy)) of
               None \<Rightarrow> Some (Inl (KeyError (name (h assy))))
             | Some e \<Rightarrow>
                 Some (Inr (0, UpdateAssemblies
                   (AddComponent 0 (fst e) (wrapped_loc (loc (h assy))) doc)))))"
    by (rule toCAF_of_loop)
  show ?thesis
  proof (cases "toCAF_loop h coloredSTEP ?xs (d0, Map.empty)")
    case None
    then have "toCAF h traverse assy coloredSTEP = None" by (simp add: eq)
    moreover from None toCAF_loop_plain have coloredSTEP by (cases coloredSTEP) auto
    ultimately show ?thesis by blast
  next
    case (Some r)
    show ?thesis
    proof (cases r)
      case (Inl e)
      with Some have l: "toCAF_loop h coloredSTEP ?xs (d0, Map.empty) = Some (Inl e)" by simp
      then have t: "toCAF h traverse assy coloredSTEP = Some (Inl e)" by (simp add: eq)
      from toCAF_loop_Inl [OF l] obtain j c where "j < length ?xs"
        "c \<in> set (children (h (snd (?xs ! j))))"
        "name (h c) \<notin> dom (Map.empty :: subassys) \<union> fst ` set (take (Suc j) ?xs)"
        "e = KeyError (name (h c))"
        by blast
      with t have "j < length ?xs \<and> c \<in> set (children (h (snd (?xs ! j)))) \<and>
        name (h c) \<notin> fst ` set (take (Suc j) ?xs) \<and>
        toCAF h traverse assy coloredSTEP = Some (Inl (KeyError (name (h c))))"
        by simp
      then show ?thesis by blast
    next
      case (Inr st)
      with Some have "toCAF_loop h coloredSTEP ?xs (d0, Map.empty) = Some (Inr (fst st, snd st))"
        by simp
      from toCAF_loop_Inr_children [OF this assms(1,2)] assms(3) show ?thesis by simp
    qed
  qed
qed

section \<open>toCAF returns\<close>

lemma color_walk_ends:
  "walk_ends_within h n v \<Longrightarrow> \<exists>c. color_walk h (color (h v)) v = Some c"
proof (induction n arbitrary: v)
  case 0
  show ?case
  proof (cases "color (h v)")
    case None
    with 0 have "parent (h v) = None" by simp
    then show ?thesis by (simp add: color_walk_root)
  next
    case (Some c)
    then show ?thesis by simp
  qed
next
  case (Suc n)
  show ?case
  proof (cases "color (h v)")
    case None
    show ?thesis
    proof (cases "parent (h v)")
      case pn: None
      then show ?thesis by (simp add: color_walk_root)
    next
      case (Some p)
      with None Suc.prems have "walk_ends_within h n p" by simp
      from Suc.IH [OF this] obtain c where "color_walk h (color (h p)) p = Some c" ..
      with None color_walk_step [of h v p, OF Some] show ?thesis by simp
    qed
  next
    case (Some c)
    then show ?thesis by simp
  qed
qed

lemma handle_colors_returns:
  assumes "cs \<Longrightarrow> walk_ends_within h n v"
  shows "\<exists>d'. handle_colors h cs v lab subassy d = Some d'"
proof (cases cs)
  case True
  from color_walk_ends [OF assms [OF True]] obtain c where
    "color_walk h (color (h v)) v = Some c" ..
  with True show ?thesis by (simp add: handle_colors_def)
next
  case False
  then show ?thesis by (simp add: handle_colors_def)
qed

lemma toCAF_body_returns:
  assumes w: "cs \<Longrightarrow> walk_ends_within h n v"
    and c: "\<forall>ch\<in>set (children (h v)). name (h ch) = k \<or> sub (name (h ch)) \<noteq> None"
  shows "\<exists>d' sub'. toCAF_body h cs (k, v) (d, sub) = Some (Inr (d', sub'))"
proof -
  let ?d0 = "setName (Suc (labels d)) k
      (AddComponent (Suc (labels d)) (labels d) TopLoc_Identity
        ((setName (labels d) (k @ ''_part'')
          (SetShape (labels d) (makeCompound (shapes (h v))) (d\<lparr>labels := Suc (labels d)\<rparr>)))
          \<lparr>labels := Suc (Suc (labels d))\<rparr>))"
  let ?sub = "sub(k \<mapsto> (Suc (labels d), loc (h v)))"
  from handle_colors_returns [of cs h n v, OF w] obtain d1 where
    hc: "handle_colors h cs v (labels d) (Suc (labels d)) ?d0 = Some d1" by blast
  from c have "\<forall>ch\<in>set (children (h v)). ?sub (name (h ch)) \<noteq> None" by auto
  from add_children_total [OF this] obtain d2 where
    ac: "add_children h ?sub (Suc (labels d)) (children (h v)) d1 = Inr d2" by blast
  have "toCAF_body h cs (k, v) (d, sub) = Some (Inr (d2, ?sub))"
    using hc ac
    by (simp add: toCAF_body_def Let_def NewShape_def setName_def TDataStd_Name_Set_s_def
        SetShape_def AddComponent_def)
  then show ?thesis by blast
qed

lemma toCAF_loop_returns:
  assumes "cs \<Longrightarrow> \<forall>kv\<in>set xs. walk_ends_within h n (snd kv)"
    and "children_recorded h seen xs" and "set seen \<subseteq> dom sub"
  shows "\<exists>d' sub'. toCAF_loop h cs xs (d, sub) = Some (Inr (d', sub'))"
  using assms
proof (induction xs arbitrary: d sub seen)
  case Nil
  then show ?case by simp
next
  case (Cons kv rest)
  have w: "cs \<Longrightarrow> walk_ends_within h n (snd kv)"
    using Cons.prems(1) by simp
  have c: "\<forall>ch\<in>set (children (h (snd kv))). name (h ch) = fst kv \<or> sub (name (h ch)) \<noteq> None"
    using Cons.prems(2,3) by auto
  from toCAF_body_returns [of cs h n "snd kv" "fst kv" sub d, OF w c] obtain d1 sub1 where
    b: "toCAF_body h cs (fst kv, snd kv) (d, sub) = Some (Inr (d1, sub1))" by blast
  from toCAF_body_Inr(2) [OF b] Cons.prems(3) have s: "set (fst kv # seen) \<subseteq> dom sub1"
    by auto
  have w': "cs \<Longrightarrow> \<forall>kv\<in>set rest. walk_ends_within h n (snd kv)"
    using Cons.prems(1) by simp
  from Cons.prems(2) have r: "children_recorded h (fst kv # seen) rest" by simp
  from Cons.IH [OF w' r s] obtain d' sub' where
    "toCAF_loop h cs rest (d1, sub1) = Some (Inr (d', sub'))" by blast
  with b show ?case by simp
qed

lemma toCAF_loop_dom:
  "toCAF_loop h cs xs (d, sub) = Some (Inr (d', sub')) \<Longrightarrow> dom sub' = dom sub \<union> fst ` set xs"
proof (induction xs arbitrary: d sub)
  case Nil
  then show ?case by simp
next
  case (Cons kv rest)
  from Cons.prems obtain d1 sub1 where
    b: "toCAF_body h cs (fst kv, snd kv) (d, sub) = Some (Inr (d1, sub1))" and
    r: "toCAF_loop h cs rest (d1, sub1) = Some (Inr (d', sub'))"
    by (rule toCAF_loop_Cons_pair)
  from Cons.IH [OF r] toCAF_body_Inr(2) [OF b] show ?case by auto
qed

lemma toCAF_returns:
  assumes rec: "children_recorded h [] (traverse assy)"
    and rt: "name (h assy) \<in> fst ` set (traverse assy)"
    and w: "cs \<Longrightarrow> \<forall>kv\<in>set (traverse assy). walk_ends_within h n (snd kv)"
  shows "\<exists>doc. toCAF h traverse assy cs = Some (Inr (0, doc))"
proof -
  obtain d0 where eq: "toCAF h traverse assy cs =
      (case toCAF_loop h cs (traverse assy) (d0, Map.empty) of
          None \<Rightarrow> None
        | Some (Inl e) \<Rightarrow> Some (Inl e)
        | Some (Inr (doc, subassys)) \<Rightarrow>
            (case subassys (name (h assy)) of
               None \<Rightarrow> Some (Inl (KeyError (name (h assy))))
             | Some e \<Rightarrow>
                 Some (Inr (0, UpdateAssemblies
                   (AddComponent 0 (fst e) (wrapped_loc (loc (h assy))) doc)))))"
    by (rule toCAF_of_loop)
  have "set [] \<subseteq> dom (Map.empty :: subassys)" by simp
  from toCAF_loop_returns [of cs "traverse assy" h n "[]" Map.empty d0, OF w rec this]
  obtain d' sub' where
    lp: "toCAF_loop h cs (traverse assy) (d0, Map.empty) = Some (Inr (d', sub'))" by blast
  from toCAF_loop_dom [OF lp] rt have "name (h assy) \<in> dom sub'" by simp
  then obtain e where "sub' (name (h assy)) = Some e" by blast
  with lp show ?thesis by (simp add: eq)
qed

lemma root_placement_of_result:
  assumes "toCAF h traverse assy cs = Some (Inr (rlab, doc))"
  shows "\<exists>l. last (components doc) = (0, l, wrapped_loc (loc (h assy)))"
proof -
  from assms obtain d0 d' sub' e where d0: "labels d0 = 1" "name_attr d0 = [0 \<mapsto> ''CQ assembly'']"
      "shape_attr d0 = Map.empty" "color_attr d0 = Map.empty" "components d0 = []"
    and lp: "toCAF_loop h cs (traverse assy) (d0, Map.empty) = Some (Inr (d', sub'))"
    and sb: "sub' (name (h assy)) = Some e"
    and doc: "doc = UpdateAssemblies (AddComponent 0 (fst e) (wrapped_loc (loc (h assy))) d')"
    and root0: "rlab = 0"
    by (rule toCAF_Inr)
  from doc have "last (components doc) = (0, fst e, wrapped_loc (loc (h assy)))"
    by (simp add: final_attrs)
  then show ?thesis by blast
qed

text \<open>
  C1. With \<open>coloredSTEP=True\<close>, on a traversal that keeps the contract of the input
  (every child of a yielded node bears a name recorded by a pass not later than the
  parent's; the name of \<open>assy\<close> is yielded; from every yielded node the parents lead in
  at most \<open>n\<close> steps to a node with a colour or without parent), \<open>toCAF\<close> returns a
  document. In it a yielded node that has no colour of its own and whose nearest coloured
  ancestor has the colour \<open>c\<close> has \<open>c\<close> on its part label and no colour on its assembly
  label.
\<close>

theorem toCAF_colored_inherits:
  assumes rec: "children_recorded h [] (traverse assy)"
    and rt: "name (h assy) \<in> fst ` set (traverse assy)"
    and w: "\<forall>kv\<in>set (traverse assy). walk_ends_within h n (snd kv)"
    and i: "i < length (traverse assy)" and kv: "traverse assy ! i = (k, v)"
    and own: "color (h v) = None" and up: "up_path h v ps a" and ca: "color (h a) = Some c"
  shows "\<exists>doc. toCAF h traverse assy True = Some (Inr (0, doc)) \<and>
           color_attr doc (part_label i) = Some (wrapped c) \<and>
           color_attr doc (assy_label i) = None"
proof -
  from toCAF_returns [of h traverse assy True n, OF rec rt] w obtain doc where
    r: "toCAF h traverse assy True = Some (Inr (0, doc))" by blast
  from colored_inherits_of_result [OF r i kv own up ca] r show ?thesis by blast
qed

text \<open>
  C8. On a traversal that keeps the contract of the input (when \<open>coloredSTEP\<close> is set,
  also every walk up the parents ends), \<open>toCAF\<close> returns a document. When the traversal
  yields \<open>N\<close> pairs, the document has \<open>2 * N + 1\<close> labels: the root label named
  \<open>CQ assembly\<close>, and for each pair \<open>(k, v)\<close> a part label named \<open>k_part\<close> holding the
  compound of the shapes of \<open>v\<close> and an assembly label named \<open>k\<close> holding no shape. The
  \<open>N\<close> part labels, the \<open>N\<close> assembly labels and the root label are pairwise distinct and
  are all the labels.
\<close>

theorem toCAF_creates_labels:
  assumes rec: "children_recorded h [] (traverse assy)"
    and rt: "name (h assy) \<in> fst ` set (traverse assy)"
    and w: "coloredSTEP \<longrightarrow> (\<forall>kv\<in>set (traverse assy). walk_ends_within h n (snd kv))"
  shows "\<exists>doc. toCAF h traverse assy coloredSTEP = Some (Inr (0, doc)) \<and>
    labels doc = 2 * length (traverse assy) + 1 \<and>
    name_attr doc 0 = Some ''CQ assembly'' \<and> shape_attr doc 0 = None \<and>
    (\<forall>i<length (traverse assy).
       name_attr doc (part_label i) = Some (fst (traverse assy ! i) @ ''_part'') \<and>
       shape_attr doc (part_label i) = Some (makeCompound (shapes (h (snd (traverse assy ! i))))) \<and>
       name_attr doc (assy_label i) = Some (fst (traverse assy ! i)) \<and>
       shape_attr doc (assy_label i) = None) \<and>
    {..<labels doc} =
       {0} \<union> part_label ` {..<length (traverse assy)} \<union> assy_label ` {..<length (traverse assy)} \<and>
    card (part_label ` {..<length (traverse assy)}) = length (traverse assy) \<and>
    card (assy_label ` {..<length (traverse assy)}) = length (traverse assy) \<and>
    part_label ` {..<length (traverse assy)} \<inter> assy_label ` {..<length (traverse assy)} = {} \<and>
    0 \<notin> part_label ` {..<length (traverse assy)} \<union> assy_label ` {..<length (traverse assy)}"
proof -
  from toCAF_returns [of h traverse assy coloredSTEP n, OF rec rt] w obtain doc where
    r: "toCAF h traverse assy coloredSTEP = Some (Inr (0, doc))" by blast
  note T = creates_labels_of_result [OF r]
  from T have a: "labels doc = 2 * length (traverse assy) + 1"
    by (rule conjunct1)
  note rest = T [THEN conjunct2, THEN conjunct2]
  show ?thesis
    by (rule exI [of _ doc], rule conjI, rule r, rule conjI, rule a, rule rest)
qed

text \<open>
  C7. On a traversal that keeps the contract of the input, \<open>toCAF\<close> returns a document,
  and the component added last, to the root label, has the placement of \<open>assy\<close> itself.
  When moreover the keys of the traversal are pairwise distinct (names are unique), then
  for the node \<open>v\<close> yielded at position \<open>i\<close> and every child of \<open>v\<close>: the component added
  to the assembly label of \<open>v\<close> is the assembly label and the placement recorded under the
  child's name, by a pass not later than the one for \<open>v\<close>; for a child yielded under its
  own name, at position \<open>j\<close>, these are the child's own assembly label and the child's own
  \<open>loc\<close>. The assembly label of \<open>v\<close> has no other components than its part, at the
  identity placement, and these; and the component of the root label is the assembly
  label of the node yielded under the name of \<open>assy\<close>.
\<close>

theorem toCAF_children_placement:
  assumes rec: "children_recorded h [] (traverse assy)"
    and rt: "name (h assy) \<in> fst ` set (traverse assy)"
    and w: "coloredSTEP \<longrightarrow> (\<forall>kv\<in>set (traverse assy). walk_ends_within h n (snd kv))"
    and i: "i < length (traverse assy)" and kv: "traverse assy ! i = (k, v)"
  shows "\<exists>doc. toCAF h traverse assy coloredSTEP = Some (Inr (0, doc)) \<and>
    (\<exists>l. last (components doc) = (0, l, wrapped_loc (loc (h assy)))) \<and>
    (distinct (map fst (traverse assy)) \<longrightarrow>
       (\<forall>ch\<in>set (children (h v)). \<exists>j\<le>i. fst (traverse assy ! j) = name (h ch) \<and>
            (assy_label i, assy_label j, wrapped_loc (loc (h (snd (traverse assy ! j)))))
              \<in> set (components doc)) \<and>
       (\<forall>ch\<in>set (children (h v)). \<forall>j<length (traverse assy).
            traverse assy ! j = (name (h ch), ch) \<longrightarrow>
            j \<le> i \<and> (assy_label i, assy_label j, wrapped_loc (loc (h ch))) \<in> set (components doc)) \<and>
       (\<forall>c pl. (assy_label i, c, pl) \<in> set (components doc) \<longrightarrow>
            (c = part_label i \<and> pl = TopLoc_Identity) \<or>
            (\<exists>ch\<in>set (children (h v)). \<exists>j\<le>i. fst (traverse assy ! j) = name (h ch) \<and>
               c = assy_label j \<and> pl = wrapped_loc (loc (h (snd (traverse assy ! j)))))) \<and>
       (\<exists>r<length (traverse assy). fst (traverse assy ! r) = name (h assy) \<and>
            last (components doc) = (0, assy_label r, wrapped_loc (loc (h assy)))))"
proof -
  from toCAF_returns [of h traverse assy coloredSTEP n, OF rec rt] w obtain doc where
    r: "toCAF h traverse assy coloredSTEP = Some (Inr (0, doc))" by blast
  note L = root_placement_of_result [OF r]
  have D: "(\<forall>ch\<in>set (children (h v)). \<exists>j\<le>i. fst (traverse assy ! j) = name (h ch) \<and>
            (assy_label i, assy_label j, wrapped_loc (loc (h (snd (traverse assy ! j)))))
              \<in> set (components doc)) \<and>
       (\<forall>ch\<in>set (children (h v)). \<forall>j<length (traverse assy).
            traverse assy ! j = (name (h ch), ch) \<longrightarrow>
            j \<le> i \<and> (assy_label i, assy_label j, wrapped_loc (loc (h ch))) \<in> set (components doc)) \<and>
       (\<forall>c pl. (assy_label i, c, pl) \<in> set (components doc) \<longrightarrow>
            (c = part_label i \<and> pl = TopLoc_Identity) \<or>
            (\<exists>ch\<in>set (children (h v)). \<exists>j\<le>i. fst (traverse assy ! j) = name (h ch) \<and>
               c = assy_label j \<and> pl = wrapped_loc (loc (h (snd (traverse assy ! j)))))) \<and>
       (\<exists>r<length (traverse assy). fst (traverse assy ! r) = name (h assy) \<and>
            last (components doc) = (0, assy_label r, wrapped_loc (loc (h assy))))"
    if "distinct (map fst (traverse assy))"
    by (rule children_placement_of_result [OF r that i kv])
  show ?thesis
    by (rule exI [of _ doc], rule conjI, rule r, rule conjI, rule L, rule impI, erule D)
qed

section \<open>toCAF on the example tree\<close>

lemmas kernel_defs = TDocStd_Document_def SetAutoNaming_s_def NewShape_def SetShape_def
  AddComponent_def SetColor_def UpdateAssemblies_def TDataStd_Name_Set_s_def setName_def
  setColor_def makeCompound_def

lemma demo_labels:
  "part_label 0 = 1" "assy_label 0 = 2" "part_label 1 = 3" "assy_label 1 = 4"
  "part_label 2 = 5" "assy_label 2 = 6" "part_label (Suc 0) = 3" "assy_label (Suc 0) = 4"
  by (simp_all add: part_label_def assy_label_def)

lemma demo_plain_returns:
  "\<exists>doc. toCAF demo_heap demo_traverse 0 False = Some (Inr (0, doc))"
  by (simp add: toCAF_def toCAF_body_def handle_colors_def Let_def demo_heap_def
      demo_traverse_def kernel_defs)

text \<open>The example tree, with \<open>coloredSTEP=False\<close>: only \<open>R\<close> is coloured, on its assembly label.\<close>

theorem toCAF_plain_own_color_witness:
  "demo_traverse 0 ! 2 = (''R'', 0) \<and> demo_traverse 0 ! 0 = (''B'', 2) \<and>
   (case toCAF demo_heap demo_traverse 0 False of
      Some (Inr (t, doc)) \<Rightarrow>
        color_attr doc 6 = Some \<lparr>Red = 1, Green = 0, Blue = 0, Alpha = 1\<rparr> \<and>
        color_attr doc 5 = None \<and> color_attr doc 2 = None \<and> color_attr doc 1 = None
    | _ \<Rightarrow> False)"
proof -
  from demo_plain_returns obtain doc where
    r: "toCAF demo_heap demo_traverse 0 False = Some (Inr (0, doc))" ..
  have h: "2 < length (demo_traverse 0)" "demo_traverse 0 ! 2 = (''R'', 0)"
    "0 < length (demo_traverse 0)" "demo_traverse 0 ! 0 = (''B'', 2)"
    by (simp_all add: demo_traverse_def)
  from toCAF_plain_own_color [OF r h(1,2)] toCAF_plain_own_color [OF r h(3,4)] h show ?thesis
    by (simp add: r demo_labels red_def demo_heap_def)
qed

text \<open>The example tree, parents first: the lookup of \<open>A\<close> in the pass for \<open>R\<close> fails.\<close>

theorem toCAF_missing_child_raises_witness:
  "1 \<in> set (children (demo_heap (snd (demo_parent_first 0 ! 0)))) \<and>
   name (demo_heap 1) \<notin> fst ` set (take (Suc 0) (demo_parent_first 0)) \<and>
   toCAF demo_heap demo_parent_first 0 False = Some (Inl (KeyError ''A''))"
proof -
  have h: "0 < length (demo_parent_first 0)"
    "1 \<in> set (children (demo_heap (snd (demo_parent_first 0 ! 0))))"
    "name (demo_heap 1) \<notin> fst ` set (take (Suc 0) (demo_parent_first 0))"
    by (simp_all add: demo_parent_first_def demo_heap_def)
  have e: "toCAF demo_heap demo_parent_first 0 False = Some (Inl (KeyError ''A''))"
    by (simp add: toCAF_def toCAF_body_def handle_colors_def Let_def demo_heap_def
      demo_parent_first_def kernel_defs)
  from toCAF_missing_child_raises [where h = demo_heap and traverse = demo_parent_first
      and assy = 0 and i = 0 and ch = 1 and coloredSTEP = False, OF h] e h
  show ?thesis
    by simp
qed

text \<open>The example tree keeps the contract of the input.\<close>

lemma demo_contract:
  "children_recorded demo_heap [] (demo_traverse 0)"
  "name (demo_heap 0) \<in> fst ` set (demo_traverse 0)"
  "\<forall>kv\<in>set (demo_traverse 0). walk_ends_within demo_heap (Suc (Suc 0)) (snd kv)"
  by (simp_all add: demo_traverse_def demo_heap_def)


text \<open>The example tree, with \<open>coloredSTEP=True\<close>: \<open>B\<close> inherits the red of \<open>R\<close> through \<open>A\<close>.\<close>

theorem toCAF_colored_inherits_witness:
  "demo_traverse 0 ! 0 = (''B'', 2) \<and> color (demo_heap 2) = None \<and>
   up_path demo_heap 2 [1] 0 \<and> color (demo_heap 0) = Some red \<and>
   (case toCAF demo_heap demo_traverse 0 True of
      Some (Inr (t, doc)) \<Rightarrow>
        color_attr doc 1 = Some \<lparr>Red = 1, Green = 0, Blue = 0, Alpha = 1\<rparr> \<and>
        color_attr doc 2 = None
    | _ \<Rightarrow> False)"
proof -
  have h: "0 < length (demo_traverse 0)" "demo_traverse 0 ! 0 = (''B'', 2)"
    "color (demo_heap 2) = None" "up_path demo_heap 2 [1] 0" "color (demo_heap 0) = Some red"
    by (simp_all add: demo_traverse_def demo_heap_def)
  from toCAF_colored_inherits [where h = demo_heap and traverse = demo_traverse and assy = 0
      and n = "Suc (Suc 0)" and i = 0 and k = "''B''" and v = 2 and ps = "[1]" and a = 0
      and c = red, OF demo_contract h]
  obtain doc where r: "toCAF demo_heap demo_traverse 0 True = Some (Inr (0, doc))"
    and c: "color_attr doc (part_label 0) = Some (wrapped red)"
      "color_attr doc (assy_label 0) = None"
    by blast
  from c h show ?thesis
    by (simp add: r demo_labels red_def)
qed

text \<open>The example tree has three nodes: seven labels, with and without \<open>coloredSTEP\<close>.\<close>

theorem toCAF_creates_labels_witness:
  "(case toCAF demo_heap demo_traverse 0 True of
      Some (Inr (t, doc)) \<Rightarrow>
        t = 0 \<and> labels doc = 7 \<and> name_attr doc 0 = Some ''CQ assembly'' \<and>
        name_attr doc 1 = Some ''B_part'' \<and> name_attr doc 2 = Some ''B'' \<and>
        shape_attr doc 1 = Some (Compound [Shape 6, Shape 7]) \<and>
        name_attr doc 3 = Some ''A_part'' \<and> name_attr doc 4 = Some ''A'' \<and>
        shape_attr doc 3 = Some (Compound [Shape 5]) \<and>
        name_attr doc 5 = Some ''R_part'' \<and> name_attr doc 6 = Some ''R'' \<and>
        shape_attr doc 5 = Some (Compound [])
    | _ \<Rightarrow> False) \<and>
   (case toCAF demo_heap demo_traverse 0 False of
      Some (Inr (t, doc)) \<Rightarrow>
        t = 0 \<and> labels doc = 7 \<and> name_attr doc 0 = Some ''CQ assembly''
    | _ \<Rightarrow> False)"
proof -
  have l: "length (demo_traverse 0) = 3" by (simp add: demo_traverse_def)
  from toCAF_creates_labels [where h = demo_heap and traverse = demo_traverse and assy = 0
      and n = "Suc (Suc 0)" and coloredSTEP = True, OF demo_contract(1,2)] demo_contract(3)
  obtain doc where r: "toCAF demo_heap demo_traverse 0 True = Some (Inr (0, doc))"
    and a: "labels doc = 2 * length (demo_traverse 0) + 1"
    and b: "name_attr doc 0 = Some ''CQ assembly''"
    and c: "\<forall>i<length (demo_traverse 0).
       name_attr doc (part_label i) = Some (fst (demo_traverse 0 ! i) @ ''_part'') \<and>
       shape_attr doc (part_label i) =
         Some (makeCompound (shapes (demo_heap (snd (demo_traverse 0 ! i))))) \<and>
       name_attr doc (assy_label i) = Some (fst (demo_traverse 0 ! i)) \<and>
       shape_attr doc (assy_label i) = None"
    by blast
  from c l have "\<forall>i\<in>{0, 1, 2}.
       name_attr doc (part_label i) = Some (fst (demo_traverse 0 ! i) @ ''_part'') \<and>
       shape_attr doc (part_label i) =
         Some (makeCompound (shapes (demo_heap (snd (demo_traverse 0 ! i))))) \<and>
       name_attr doc (assy_label i) = Some (fst (demo_traverse 0 ! i)) \<and>
       shape_attr doc (assy_label i) = None"
    by simp
  with a b l have T: "case toCAF demo_heap demo_traverse 0 True of
      Some (Inr (t, doc)) \<Rightarrow>
        t = 0 \<and> labels doc = 7 \<and> name_attr doc 0 = Some ''CQ assembly'' \<and>
        name_attr doc 1 = Some ''B_part'' \<and> name_attr doc 2 = Some ''B'' \<and>
        shape_attr doc 1 = Some (Compound [Shape 6, Shape 7]) \<and>
        name_attr doc 3 = Some ''A_part'' \<and> name_attr doc 4 = Some ''A'' \<and>
        shape_attr doc 3 = Some (Compound [Shape 5]) \<and>
        name_attr doc 5 = Some ''R_part'' \<and> name_attr doc 6 = Some ''R'' \<and>
        shape_attr doc 5 = Some (Compound [])
    | _ \<Rightarrow> False"
    by (simp add: r demo_labels demo_traverse_def demo_heap_def makeCompound_def)
  from toCAF_creates_labels [where h = demo_heap and traverse = demo_traverse and assy = 0
      and n = 0 and coloredSTEP = False, OF demo_contract(1,2)]
  obtain doc' where r': "toCAF demo_heap demo_traverse 0 False = Some (Inr (0, doc'))"
    and a': "labels doc' = 2 * length (demo_traverse 0) + 1"
    and b': "name_attr doc' 0 = Some ''CQ assembly''"
    by blast
  with l have F: "case toCAF demo_heap demo_traverse 0 False of
      Some (Inr (t, doc)) \<Rightarrow>
        t = 0 \<and> labels doc = 7 \<and> name_attr doc 0 = Some ''CQ assembly''
    | _ \<Rightarrow> False"
    by (simp add: r')
  from T F show ?thesis by (rule conjI)
qed

text \<open>The example tree: \<open>B\<close> is wired into \<open>A\<close> at the placement of \<open>B\<close>, and \<open>R\<close> into the root label at the placement of \<open>R\<close>.\<close>

theorem toCAF_children_placement_witness:
  "distinct (map fst (demo_traverse 0)) \<and> demo_traverse 0 ! 1 = (''A'', 1) \<and>
   2 \<in> set (children (demo_heap 1)) \<and> demo_traverse 0 ! 0 = (name (demo_heap 2), 2) \<and>
   (case toCAF demo_heap demo_traverse 0 True of
      Some (Inr (t, doc)) \<Rightarrow>
        (4, 2, TopLoc_Transform 12) \<in> set (components doc) \<and>
        last (components doc) = (0, 6, TopLoc_Transform 10)
    | _ \<Rightarrow> False)"
proof -
  have h: "1 < length (demo_traverse 0)" "demo_traverse 0 ! 1 = (''A'', 1)"
    by (simp_all add: demo_traverse_def)
  have ds: "distinct (map fst (demo_traverse 0))"
    by (simp add: demo_traverse_def)
  have c: "2 \<in> set (children (demo_heap 1))" "0 < length (demo_traverse 0)"
    "demo_traverse 0 ! 0 = (name (demo_heap 2), 2)"
    by (simp_all add: demo_traverse_def demo_heap_def)
  from toCAF_children_placement [where h = demo_heap and traverse = demo_traverse and assy = 0
      and n = "Suc (Suc 0)" and coloredSTEP = True and i = 1 and k = "''A''" and v = 1,
      OF demo_contract(1,2) _ h] demo_contract(3) ds
  obtain doc where r: "toCAF demo_heap demo_traverse 0 True = Some (Inr (0, doc))"
    and A: "\<forall>ch\<in>set (children (demo_heap 1)). \<forall>j<length (demo_traverse 0).
        demo_traverse 0 ! j = (name (demo_heap ch), ch) \<longrightarrow>
        j \<le> 1 \<and> (assy_label 1, assy_label j, wrapped_loc (loc (demo_heap ch)))
          \<in> set (components doc)"
    and C: "\<exists>r<length (demo_traverse 0). fst (demo_traverse 0 ! r) = name (demo_heap 0) \<and>
            last (components doc) = (0, assy_label r, wrapped_loc (loc (demo_heap 0)))"
    by blast
  from C obtain j where j: "j < length (demo_traverse 0)"
    "fst (demo_traverse 0 ! j) = name (demo_heap 0)"
    "last (components doc) = (0, assy_label j, wrapped_loc (loc (demo_heap 0)))"
    by blast
  from j(1) consider "j = 0" | "j = 1" | "j = 2"
    by (auto simp: demo_traverse_def less_Suc_eq numeral_3_eq_3)
  then have "j = 2"
    using j(2) by cases (simp_all add: demo_traverse_def demo_heap_def)
  with j(3) have l: "last (components doc) = (0, 6, TopLoc_Transform 10)"
    by (simp add: demo_labels demo_heap_def)
  from A c have "(assy_label 1, assy_label 0, wrapped_loc (loc (demo_heap 2))) \<in> set (components doc)"
    by blast
  then have "(4, 2, TopLoc_Transform 12) \<in> set (components doc)"
    by (simp add: demo_labels demo_heap_def)
  with h ds c l show ?thesis by (simp add: r)
qed

end
